theory Spec2Isabelle
  imports Main "HOL-Library.Word"
begin

unbundle bit_operations_syntax

section \<open>Machine integers\<close>

text \<open>
  The POSIX branch of the source is modelled, on a target where \<open>long\<close> has 64 bits
  (LP64) and \<open>mode_t\<close> has 32. A \<open>long\<close> is a 64-bit word read in two's complement
  (\<open>sint\<close>); the sum of two of them is the sum of the machine, which wraps around.
\<close>

type_synonym long = "64 word"

type_synonym mode_t = "32 word"

definition LONG_MAX :: int where
  "LONG_MAX = 9223372036854775807"

section \<open>C strings\<close>

text \<open>
  The completers work on NUL-terminated byte strings. A C string is modelled by the
  list of its bytes before the terminator; positions are byte offsets (\<open>ssize_t\<close> in
  the source, \<open>nat\<close> here, with \<open>option\<close> wherever the source uses a negative
  sentinel).
\<close>

definition NUL :: char where
  "NUL = CHR 0x00"

text \<open>
  \<open>s[i]\<close> for a C string \<open>s\<close>: the byte at offset \<open>i\<close>, and the terminator at
  offset \<open>strlen(s)\<close>. (The source never reads beyond the terminator.)
\<close>

definition char_at :: "string \<Rightarrow> nat \<Rightarrow> char" where
  "char_at s i = (if i < length s then s ! i else NUL)"

text \<open>
  \<open>strchr(s, c)\<close> of the C library: the offset of the first occurrence of \<open>c\<close>, where
  the terminating NUL counts as part of the string (so \<open>strchr(s, 0)\<close> is never
  \<open>NULL\<close>); \<open>None\<close> is \<open>NULL\<close>.
\<close>

primrec strchr :: "string \<Rightarrow> char \<Rightarrow> nat option" where
  "strchr [] c = (if c = NUL then Some 0 else None)"
| "strchr (x # xs) c = (if x = c then Some 0 else map_option Suc (strchr xs c))"

text \<open>\<open>strrchr(s, c)\<close>: the offset of the last occurrence (used with \<open>c = '/'\<close> only).\<close>

primrec strrchr :: "string \<Rightarrow> char \<Rightarrow> nat option" where
  "strrchr [] c = (if c = NUL then Some 0 else None)"
| "strrchr (x # xs) c =
     (case strrchr xs c of
        Some i \<Rightarrow> Some (Suc i)
      | None \<Rightarrow> if x = c then Some 0 else None)"

text \<open>The C string held in a byte buffer: the bytes before the first NUL.\<close>

definition c_str :: "string \<Rightarrow> string" where
  "c_str buf = takeWhile (\<lambda>c. c \<noteq> NUL) buf"

text \<open>
  \<open>rp_memmove(buf + dst, buf + src, n)\<close> inside one buffer: bytes \<open>dst..dst+n-1\<close>
  receive the old bytes \<open>src..src+n-1\<close>.
\<close>

definition rp_memmove :: "string \<Rightarrow> nat \<Rightarrow> nat \<Rightarrow> nat \<Rightarrow> string" where
  "rp_memmove buf dst src n = take dst buf @ take n (drop src buf) @ drop (dst + n) buf"

text \<open>\<open>mem_strdup(mem, s)\<close>: a fresh buffer holding the bytes of \<open>s\<close> and its terminator.\<close>

definition mem_strdup :: "string \<Rightarrow> string" where
  "mem_strdup s = s @ [NUL]"

section \<open>Code-point cursor\<close>

text \<open>
  Modelled from the spec: \<open>str_next_ofs\<close> and \<open>str_prev_ofs\<close> (stringbuf.c) are not
  among the sources. The spec describes them as the code-point cursor: "given a byte
  buffer and a byte offset, returns the offset of the next/previous code point
  boundary". In UTF-8 a code point is one lead byte and the continuation bytes
  \<open>0x80..0xBF\<close> after it; the result is the distance in bytes, 0 at the end (start) of
  the buffer. The source passes two more arguments, a flag (always \<open>true\<close>) and a pointer
  for the column width (always \<open>NULL\<close>); they are left out.
\<close>

definition is_follower :: "char \<Rightarrow> bool" where
  "is_follower c = (128 \<le> (of_char c :: nat) \<and> (of_char c :: nat) \<le> 191)"

definition str_next_ofs :: "string \<Rightarrow> nat \<Rightarrow> nat \<Rightarrow> nat" where
  "str_next_ofs s len pos =
     (if pos < len
      then 1 + length (takeWhile is_follower (drop (pos + 1) (take len s)))
      else 0)"

definition str_prev_ofs :: "string \<Rightarrow> nat \<Rightarrow> nat" where
  "str_prev_ofs s pos =
     (if 0 < pos
      then min pos (1 + length (takeWhile is_follower (rev (take pos s))))
      else 0)"

section \<open>Word boundary scan (steps 1 and 2 of \<open>rp_complete_quoted_word\<close>)\<close>

datatype error = Assertion_failed

text \<open>
  Step 1, one iteration of the forward loop up to the call of \<open>str_next_ofs\<close>: an
  escape character advances \<open>pos\<close> by one byte, a quote character updates \<open>qpos\<close> and
  \<open>qcount\<close>. \<open>qpos = None\<close> is the source's \<open>qpos = -1\<close>.
\<close>

definition quote_step :: "string \<Rightarrow> string \<Rightarrow> char \<Rightarrow> nat \<Rightarrow> nat option \<Rightarrow> nat
    \<Rightarrow> nat \<times> nat option \<times> nat" where
  "quote_step prefix quote_chars escape_char pos qpos qcount =
     (if char_at prefix pos = escape_char then (pos + 1, qpos, qcount)
      else if strchr quote_chars (char_at prefix pos) \<noteq> None then
        (pos, (if qcount mod 2 = 1 then None else Some pos), qcount + 1)
      else (pos, qpos, qcount))"

function quote_loop :: "string \<Rightarrow> string \<Rightarrow> char \<Rightarrow> nat \<Rightarrow> nat option \<Rightarrow> nat
    \<Rightarrow> nat option \<times> nat" where
  "quote_loop prefix quote_chars escape_char pos qpos qcount =
     (if pos < length prefix then
        (case quote_step prefix quote_chars escape_char pos qpos qcount of
           (pos1, qpos1, qcount1) \<Rightarrow>
             (let ofs = str_next_ofs prefix (length prefix) pos1 in
              if ofs \<le> 0 then (qpos1, qcount1)
              else quote_loop prefix quote_chars escape_char (pos1 + ofs) qpos1 qcount1))
      else (qpos, qcount))"
  by pat_completeness auto
termination
  by (relation "measure (\<lambda>(prefix, quote_chars, escape_char, pos, qpos, qcount). length prefix - pos)")
     (auto simp: quote_step_def split: if_splits)

declare quote_loop.simps [simp del]

text \<open>
  Step 1 as a whole: \<open>Inr (quote, pos)\<close> are the values of the variables \<open>quote\<close> and
  \<open>pos\<close> after the block; \<open>quote = NUL\<close> means that no open quote was found (then
  \<open>pos\<close> is overwritten by step 2). \<open>assert(qpos >= 0)\<close> is a branch of its own.
\<close>

definition find_quote :: "string \<Rightarrow> string \<Rightarrow> char \<Rightarrow> error + (char \<times> nat)" where
  "find_quote prefix quote_chars escape_char =
     (if char_at quote_chars 0 \<noteq> NUL then
        (case quote_loop prefix quote_chars escape_char 0 None 0 of
           (qpos, qcount) \<Rightarrow>
             if qcount mod 2 = 1 then
               (case qpos of
                  None \<Rightarrow> Inl Assertion_failed
                | Some q \<Rightarrow> Inr (char_at prefix q, q + 1))
             else Inr (NUL, length prefix))
      else Inr (NUL, length prefix))"

text \<open>
  Step 2, the backward loop. \<open>pos - ofs\<close> is never negative, since the cursor returns
  \<open>ofs \<le> pos\<close> (lemma \<open>str_prev_ofs_le\<close>), and \<open>pos - ofs - 1\<close> is read only when
  \<open>pos > ofs\<close>.
\<close>

function word_loop :: "string \<Rightarrow> string \<Rightarrow> char \<Rightarrow> nat \<Rightarrow> nat" where
  "word_loop prefix non_word_chars escape_char pos =
     (if 0 < pos then
        (let ofs = str_prev_ofs prefix pos in
         if ofs \<le> 0 then pos
         else if strchr non_word_chars (char_at prefix (pos - ofs)) \<noteq> None
                 \<and> (pos \<le> ofs \<or> char_at prefix (pos - ofs - 1) \<noteq> escape_char) then pos
         else word_loop prefix non_word_chars escape_char (pos - ofs))
      else pos)"
  by pat_completeness auto
termination
  by (relation "measure (\<lambda>(prefix, non_word_chars, escape_char, pos). pos)") auto

declare word_loop.simps [simp del]

text \<open>Steps 1 and 2 together: the quote character (NUL for none) and the word start.\<close>

definition word_boundary :: "string \<Rightarrow> string \<Rightarrow> char \<Rightarrow> string \<Rightarrow> error + (char \<times> nat)" where
  "word_boundary prefix non_word_chars escape_char quote_chars =
     (case find_quote prefix quote_chars escape_char of
        Inl e \<Rightarrow> Inl e
      | Inr (quote, pos) \<Rightarrow>
          if quote = NUL
          then Inr (quote, word_loop prefix non_word_chars escape_char (length prefix))
          else Inr (quote, pos))"

section \<open>Unescaping the word\<close>

text \<open>
  The loop of lines 126-138 on the duplicated buffer \<open>word\<close> (\<open>wlen + 1\<close> bytes). \<open>wlen\<close>
  is not updated when a byte is removed, as in the source.
\<close>

function unescape_loop :: "string \<Rightarrow> string \<Rightarrow> char \<Rightarrow> nat \<Rightarrow> nat \<Rightarrow> string" where
  "unescape_loop word non_word_chars escape_char wlen wpos =
     (if wpos < wlen then
        (let ofs = str_next_ofs word wlen wpos in
         if ofs \<le> 0 then word
         else unescape_loop
                (if char_at word wpos = escape_char
                    \<and> strchr non_word_chars (char_at word (wpos + 1)) \<noteq> None
                 then rp_memmove word wpos (wpos + 1) (wlen - wpos)
                 else word)
                non_word_chars escape_char wlen (wpos + ofs))
      else word)"
  by pat_completeness auto
termination
  by (relation "measure (\<lambda>(word, non_word_chars, escape_char, wlen, wpos). wlen - wpos)") auto

declare unescape_loop.simps [simp del]

text \<open>
  The word handed to the user routine: \<open>mem_strdup(prefix + pos)\<close>, unescaped when the
  word is not quoted, read as a C string.
\<close>

definition unescaped_word :: "string \<Rightarrow> string \<Rightarrow> char \<Rightarrow> char \<Rightarrow> nat \<Rightarrow> string" where
  "unescaped_word prefix non_word_chars escape_char quote pos =
     (let word = mem_strdup (drop pos prefix) in
      c_str (if quote = NUL
             then unescape_loop word non_word_chars escape_char (length prefix - pos) 0
             else word))"

section \<open>String buffers\<close>

text \<open>
  Modelled from the spec: the growable string buffer \<open>stringbuf_t\<close> (stringbuf.c) is not
  among the sources; the spec calls it "an owned growable buffer type with explicit bounds
  checks". A buffer is modelled by its contents, each operation by what its name and its
  use in completers.c say. \<open>sbuf_next\<close> returns the offset after the code point at
  \<open>pos\<close>, and a negative number (here \<open>None\<close>) at the end of the buffer.
\<close>

definition sbuf_replace :: "string \<Rightarrow> string \<Rightarrow> string" where
  "sbuf_replace sbuf s = s"

definition sbuf_clear :: "string \<Rightarrow> string" where
  "sbuf_clear sbuf = []"

definition sbuf_len :: "string \<Rightarrow> nat" where
  "sbuf_len sbuf = length sbuf"

definition sbuf_string :: "string \<Rightarrow> string" where
  "sbuf_string sbuf = c_str sbuf"

definition sbuf_char_at :: "string \<Rightarrow> nat \<Rightarrow> char" where
  "sbuf_char_at sbuf pos = char_at sbuf pos"

definition sbuf_append :: "string \<Rightarrow> string \<Rightarrow> string" where
  "sbuf_append sbuf s = sbuf @ s"

definition sbuf_append_n :: "string \<Rightarrow> string \<Rightarrow> nat \<Rightarrow> string" where
  "sbuf_append_n sbuf s n = sbuf @ take n s"

definition sbuf_append_char :: "string \<Rightarrow> char \<Rightarrow> string" where
  "sbuf_append_char sbuf c = sbuf @ [c]"

definition sbuf_insert_char_at :: "string \<Rightarrow> char \<Rightarrow> nat \<Rightarrow> string" where
  "sbuf_insert_char_at sbuf c pos = take pos sbuf @ [c] @ drop pos sbuf"

definition sbuf_delete_from :: "string \<Rightarrow> nat \<Rightarrow> string" where
  "sbuf_delete_from sbuf pos = take pos sbuf"

definition sbuf_next :: "string \<Rightarrow> nat \<Rightarrow> nat option" where
  "sbuf_next sbuf pos =
     (let ofs = str_next_ofs sbuf (length sbuf) pos in
      if ofs \<le> 0 then None else Some (pos + ofs))"

section \<open>The rewrite layer: \<open>word_add_completion_ex\<close>\<close>

text \<open>
  The escaping loop of lines 42-51. \<open>len\<close> is read once before the loop and not updated
  when a character is inserted, as in the source.
\<close>

function escape_loop :: "string \<Rightarrow> string \<Rightarrow> char \<Rightarrow> nat \<Rightarrow> nat \<Rightarrow> string" where
  "escape_loop sbuf nwc esc len pos =
     (if pos < len then
        (case (if strchr nwc (sbuf_char_at sbuf pos) \<noteq> None
               then (sbuf_insert_char_at sbuf esc pos, pos + 1)
               else (sbuf, pos)) of
           (sbuf1, pos1) \<Rightarrow>
             (case sbuf_next sbuf1 pos1 of
                None \<Rightarrow> sbuf1
              | Some p \<Rightarrow> if p \<le> 0 then sbuf1 else escape_loop sbuf1 nwc esc len p))
      else sbuf)"
  by pat_completeness auto
termination
  by (relation "measure (\<lambda>(sbuf, nwc, esc, len, pos). len - pos)")
     (auto simp: sbuf_next_def Let_def split: if_splits)

declare escape_loop.simps [simp del]

text \<open>A proposed completion, as the arguments of a completion function.\<close>

record candidate =
  display :: "string option"
  replacement :: string
  delete_before :: long
  delete_after :: long

text \<open>
  Pointers. A completion function is either \<open>word_add_completion_ex\<close> or some other
  function of the program; a \<open>void*\<close> is an address, the address of the local \<open>wenv\<close>
  of \<open>rp_complete_quoted_word\<close>, or that of the local \<open>fclosure\<close> of
  \<open>rp_complete_filename\<close>. \<open>NULL\<close> is \<open>Addr 0\<close>.
\<close>

datatype fun_ptr = Word_add_completion_ex | Completion_fun nat

datatype void_ptr = Addr nat | Wenv_ptr | Fclosure_ptr

text \<open>
  \<open>rp_completion_fun_t\<close>: called with the environment, a closure pointer and the
  candidate; it answers whether more candidates are wanted. \<open>'e\<close> is the state behind
  \<open>rp_env_t* env\<close> (where the candidate store lives), passed and returned.
\<close>

type_synonym 'e rp_completion_fun = "'e \<Rightarrow> void_ptr \<Rightarrow> candidate \<Rightarrow> bool \<times> 'e"

text \<open>
  \<open>word_closure_t\<close>. The scratch buffer \<open>sbuf\<close> is overwritten at the start of every
  call of \<open>word_add_completion_ex\<close>, so it is local to that function here.
\<close>

record word_closure =
  non_word_chars :: string
  escape_char :: char
  quote :: char
  delete_before_adjust :: long
  prev_complete :: fun_ptr
  prev_env :: void_ptr

text \<open>
  \<open>word_add_completion_ex\<close>. \<open>wenv\<close> is the closure that \<open>closure\<close> points to. The
  previous completion function is called through the pointer \<open>prev_complete\<close>, with
  \<open>closure\<close> itself as in the source; \<open>call\<close> gives the behaviour of the function
  behind each pointer. \<open>wenv->delete_before_adjust + delete_before\<close> is a sum of two
  \<open>long\<close> values.

  When \<open>prev_complete\<close> is \<open>word_add_completion_ex\<close> itself (the sink was installed by
  a call of \<open>rp_complete_quoted_word\<close> made by a completer that runs under another such
  call), the source enters this function again with the same closure, and so without
  end. The model does not follow that call: it is \<open>call Word_add_completion_ex\<close>, a
  parameter like the other functions. What is proved below about a candidate that is
  passed on concerns the arguments of the call of \<open>prev_complete\<close>.
\<close>

definition word_add_completion_ex ::
    "(fun_ptr \<Rightarrow> 'e rp_completion_fun) \<Rightarrow> word_closure \<Rightarrow> 'e rp_completion_fun" where
  "word_add_completion_ex call wenv env closure c =
     (let sbuf0 = sbuf_replace [] (replacement c);
          sbuf1 = (if quote wenv \<noteq> NUL then sbuf_append_char sbuf0 (quote wenv)
                   else escape_loop sbuf0 (non_word_chars wenv) (escape_char wenv)
                          (sbuf_len sbuf0) 0)
      in call (prev_complete wenv) env closure
           \<lparr>display = Some (case display c of Some d \<Rightarrow> d | None \<Rightarrow> replacement c),
            replacement = sbuf_string sbuf1,
            delete_before = delete_before_adjust wenv + delete_before c,
            delete_after = delete_after c\<rparr>)"

section \<open>\<open>rp_complete_quoted_word\<close>\<close>

text \<open>
  \<open>rp_completion_env_t\<close>: the environment pointer, the completer argument, and the active
  sink (completion function and closure).
\<close>

record rp_completion_env =
  env :: nat
  arg :: void_ptr
  closure :: void_ptr
  complete :: fun_ptr

text \<open>
  What the filesystem and the sink are asked to do is recorded in a trace (a ghost
  variable of the model): every \<open>opendir\<close> and \<open>closedir\<close>, and every candidate proposed
  by the filename completer with the answer of the sink.
\<close>

datatype event = Opendir string | Closedir string | Proposed string bool

record 'e world =
  env_state :: 'e
  trace :: "event list"

text \<open>
  \<open>rp_add_completion_ex(cenv, ...)\<close> as seen by a completer: the candidate goes to the
  active sink of \<open>cenv\<close>. A completer (\<open>rp_completer_fun_t\<close>) receives \<open>cenv\<close> and the
  word; the model hands it the active sink together with \<open>cenv\<close>.
\<close>

type_synonym 'e rp_add = "candidate \<Rightarrow> 'e \<Rightarrow> bool \<times> 'e"

type_synonym 'e rp_completer_fun =
  "'e rp_add \<Rightarrow> rp_completion_env \<Rightarrow> string \<Rightarrow> 'e world \<Rightarrow> 'e world"

text \<open>
  The allocator \<open>cenv->env->mem\<close>: whether each allocation of the call succeeds, named
  by the variable that receives it.
\<close>

record alloc_t =
  word_ok :: bool
  sbuf_ok :: bool
  root_dir_ok :: bool
  dir_prefix_ok :: bool

definition default_non_word_chars :: string where
  "default_non_word_chars = [CHR 0x20, CHR 0x09, CHR 0x0D, CHR 0x0A]"

definition default_quote_chars :: string where
  "default_quote_chars = [CHR 0x27, CHR 0x22]"

text \<open>
  The closure set up in lines 140-147 for a word that starts at \<open>pos\<close>;
  \<open>delete_before_adjust\<close> is \<open>(long)(len - pos)\<close>.
\<close>

definition make_wenv :: "rp_completion_env \<Rightarrow> string \<Rightarrow> char \<Rightarrow> char \<Rightarrow> nat \<Rightarrow> nat
    \<Rightarrow> word_closure" where
  "make_wenv cenv nwc esc q len pos =
     \<lparr>non_word_chars = nwc, escape_char = esc, quote = q,
      delete_before_adjust = word_of_int (int len - int pos),
      prev_complete = complete cenv, prev_env = Addr (env cenv)\<rparr>"

text \<open>
  \<open>rp_complete_quoted_word\<close>. The result is the completion environment and the world
  after the call, and the list of words the user routine was invoked with (a ghost value).
\<close>

definition rp_complete_quoted_word ::
    "(fun_ptr \<Rightarrow> 'e rp_completion_fun) \<Rightarrow> alloc_t \<Rightarrow> rp_completion_env \<Rightarrow> string
      \<Rightarrow> 'e rp_completer_fun \<Rightarrow> string option \<Rightarrow> char \<Rightarrow> string option \<Rightarrow> 'e world
      \<Rightarrow> error + (rp_completion_env \<times> 'e world \<times> string list)" where
  "rp_complete_quoted_word call mem cenv prefix completer nwc_arg esc quote_arg w =
     (let nwc = (case nwc_arg of None \<Rightarrow> default_non_word_chars | Some s \<Rightarrow> s);
          quote_chars = (case quote_arg of None \<Rightarrow> default_quote_chars | Some s \<Rightarrow> s);
          len = length prefix
      in case word_boundary prefix nwc esc quote_chars of
           Inl e \<Rightarrow> Inl e
         | Inr (q, pos) \<Rightarrow>
             if len = pos then Inr (cenv, w, [])
             else if \<not> word_ok mem then Inr (cenv, w, [])
             else
               (let word = unescaped_word prefix nwc esc q pos;
                    wenv = make_wenv cenv nwc esc q len pos
                in if \<not> sbuf_ok mem then Inr (cenv, w, [])
                   else
                     (let cenv1 = cenv\<lparr>complete := Word_add_completion_ex, closure := Wenv_ptr\<rparr>;
                          w1 = completer
                                 (\<lambda>c e. word_add_completion_ex call wenv e (closure cenv1) c)
                                 cenv1 word w;
                          cenv2 = cenv1\<lparr>complete := prev_complete wenv,
                                        closure := prev_env wenv\<rparr>
                      in Inr (cenv2, w1, [word]))))"

definition rp_complete_word ::
    "(fun_ptr \<Rightarrow> 'e rp_completion_fun) \<Rightarrow> alloc_t \<Rightarrow> rp_completion_env \<Rightarrow> string
      \<Rightarrow> 'e rp_completer_fun \<Rightarrow> 'e world
      \<Rightarrow> error + (rp_completion_env \<times> 'e world \<times> string list)" where
  "rp_complete_word call mem cenv prefix completer w =
     rp_complete_quoted_word call mem cenv prefix completer None (CHR 0x5C) None w"

text \<open>
  A user completer that only proposes candidates: it proposes one, sees the answer of the
  sink, and goes on from there.
\<close>

datatype proposals = Done | Propose candidate "bool \<Rightarrow> proposals"

primrec run_proposals :: "proposals \<Rightarrow> 'e rp_add \<Rightarrow> 'e \<Rightarrow> 'e" where
  "run_proposals Done add e = e"
| "run_proposals (Propose c k) add e = (case add c e of (ok, e') \<Rightarrow> run_proposals (k ok) add e')"

definition user_completer :: "(string \<Rightarrow> proposals) \<Rightarrow> 'e rp_completer_fun" where
  "user_completer p add cenv word w = w\<lparr>env_state := run_proposals (p word) add (env_state w)\<rparr>"

section \<open>Listing files\<close>

text \<open>
  The host filesystem as the POSIX branch of the source uses it: \<open>opendir\<close> and
  \<open>readdir\<close> give the entry names of a directory in order (\<open>None\<close> when the path
  cannot be opened), and \<open>stat\<close> gives the \<open>st_mode\<close> of the file that a path names
  (\<open>None\<close> when \<open>stat\<close> fails).
\<close>

record filesystem =
  dir_entries :: "string \<Rightarrow> string list option"
  stat :: "string \<Rightarrow> mode_t option"

text \<open>
  The file type bits of \<open>st_mode\<close> (\<open>sys/stat.h\<close>): \<open>S_IFMT\<close> is the mask of the file
  type, \<open>S_IFDIR\<close> the type of a directory. (Octal 0170000 and 0040000.)
\<close>

definition S_IFMT :: mode_t where
  "S_IFMT = 0xF000"

definition S_IFDIR :: mode_t where
  "S_IFDIR = 0x4000"

text \<open>
  \<open>os_is_dir\<close> (lines 220-224). The \<open>struct stat\<close> is zeroed before the call of
  \<open>stat\<close>, whose result is not looked at, so a failed call leaves \<open>st_mode = 0\<close>.
\<close>

definition os_is_dir :: "filesystem \<Rightarrow> string \<Rightarrow> bool" where
  "os_is_dir fs cpath =
     (let st_mode = (case stat fs cpath of None \<Rightarrow> 0 | Some m \<Rightarrow> m)
      in st_mode AND S_IFDIR \<noteq> 0)"

definition os_path_is_absolute :: "string \<Rightarrow> bool" where
  "os_path_is_absolute path = (char_at path 0 = CHR ''/'')"

text \<open>
  Modelled from the spec: \<open>rp_starts_with\<close> (common.c) is not among the sources; the spec
  says "byte-prefix match".
\<close>

fun rp_starts_with :: "string \<Rightarrow> string \<Rightarrow> bool" where
  "rp_starts_with s [] = True"
| "rp_starts_with [] (p # ps) = False"
| "rp_starts_with (c # cs) (p # ps) = (c = p \<and> rp_starts_with cs ps)"

text \<open>
  Modelled from the spec: \<open>rp_add_completion\<close> (completions.c) is not among the sources;
  by the sink surface of the spec it passes the candidate, with nothing to delete, to the
  active sink of \<open>cenv\<close>.
\<close>

definition rp_add_completion :: "'e rp_add \<Rightarrow> string option \<Rightarrow> string \<Rightarrow> 'e \<Rightarrow> bool \<times> 'e" where
  "rp_add_completion add disp repl e =
     add \<lparr>display = disp, replacement = repl, delete_before = 0, delete_after = 0\<rparr> e"

section \<open>File completion\<close>

text \<open>
  The state of \<open>filename_complete_indir\<close>: the buffers \<open>dir\<close> and \<open>dir_prefix\<close> (both
  are changed and restored) and the world.
\<close>

type_synonym 'e indir_state = "string \<times> string \<times> 'e world"

text \<open>
  The body of the \<open>do\<close> loop for one entry \<open>name\<close>; the first component is the value
  of \<open>cont\<close> after it (\<open>cont\<close> is true whenever the body starts).
\<close>

definition indir_entry :: "filesystem \<Rightarrow> 'e rp_add \<Rightarrow> string \<Rightarrow> char \<Rightarrow> string
    \<Rightarrow> 'e indir_state \<Rightarrow> bool \<times> 'e indir_state" where
  "indir_entry fs add base_prefix dir_sep name st =
     (case st of (dir, dir_prefix, w) \<Rightarrow>
        if name \<noteq> ''.'' \<and> name \<noteq> ''..'' \<and> rp_starts_with name base_prefix then
          (let plen = sbuf_len dir_prefix;
               dir_prefix1 = sbuf_append dir_prefix name;
               dlen = sbuf_len dir;
               dir1 = sbuf_append (sbuf_append_char dir dir_sep) name;
               dir_prefix2 =
                 (if dir_sep \<noteq> NUL \<and> os_is_dir fs (sbuf_string dir1)
                  then sbuf_append_char dir_prefix1 dir_sep else dir_prefix1);
               dir2 = (if dir_sep \<noteq> NUL then sbuf_delete_from dir1 dlen else dir)
           in case rp_add_completion add None (sbuf_string dir_prefix2) (env_state w) of
                (cont, e) \<Rightarrow>
                  (cont, dir2, sbuf_delete_from dir_prefix2 plen,
                   w\<lparr>env_state := e,
                     trace := trace w @ [Proposed (sbuf_string dir_prefix2) cont]\<rparr>))
        else (True, st))"

text \<open>
  The text that the body builds in \<open>dir_prefix\<close> for an entry of C strings (lines
  270-280): \<open>dir_prefix + name\<close>, and the separator when it is not NUL and \<open>os_is_dir\<close>
  holds of the probe path \<open>dir + dir_sep + name\<close>.
\<close>

definition proposed_text :: "filesystem \<Rightarrow> string \<Rightarrow> string \<Rightarrow> char \<Rightarrow> string \<Rightarrow> string" where
  "proposed_text fs dir dprefix dsep name =
     dprefix @ name @ (if dsep \<noteq> NUL \<and> os_is_dir fs (dir @ [dsep] @ name) then [dsep] else [])"

text \<open>The \<open>do ... while (cont && os_findnext(d, &entry))\<close> loop over the entries read.\<close>

fun indir_loop :: "filesystem \<Rightarrow> 'e rp_add \<Rightarrow> string \<Rightarrow> char \<Rightarrow> string list
    \<Rightarrow> 'e indir_state \<Rightarrow> bool \<times> 'e indir_state" where
  "indir_loop fs add base_prefix dir_sep [] st = (True, st)"
| "indir_loop fs add base_prefix dir_sep (name # rest) st =
     (case indir_entry fs add base_prefix dir_sep name st of
        (cont, st1) \<Rightarrow>
          if cont then indir_loop fs add base_prefix dir_sep rest st1 else (cont, st1))"

definition log_event :: "event \<Rightarrow> 'e indir_state \<Rightarrow> 'e indir_state" where
  "log_event ev st = (case st of (dir, dir_prefix, w) \<Rightarrow> (dir, dir_prefix, w\<lparr>trace := trace w @ [ev]\<rparr>))"

text \<open>
  \<open>filename_complete_indir\<close>. \<open>os_findfirst\<close> fails when the directory cannot be opened
  and when it has no entry at all; the loop and \<open>os_findclose\<close> are then skipped.
\<close>

definition filename_complete_indir :: "filesystem \<Rightarrow> 'e rp_add \<Rightarrow> 'e indir_state \<Rightarrow> string \<Rightarrow> char
    \<Rightarrow> bool \<times> 'e indir_state" where
  "filename_complete_indir fs add st base_prefix dir_sep =
     (case st of (dir, dir_prefix, w) \<Rightarrow>
        (let path = sbuf_string dir;
             st0 = log_event (Opendir path) st
         in case dir_entries fs path of
              None \<Rightarrow> (True, st0)
            | Some [] \<Rightarrow> (True, st0)
            | Some (name # rest) \<Rightarrow>
                (case indir_loop fs add base_prefix dir_sep (name # rest) st0 of
                   (cont, st1) \<Rightarrow> (cont, log_event (Closedir path) st1))))"

record filename_closure =
  roots :: string
  dir_sep :: char

text \<open>
  The body of the loop over the roots for one root: \<open>root_dir\<close> becomes the root, a
  slash, and the directory part of the prefix without its last separator. The result of
  \<open>filename_complete_indir\<close> is not used.
\<close>

definition complete_in_root :: "filesystem \<Rightarrow> 'e rp_add \<Rightarrow> string \<Rightarrow> nat option \<Rightarrow> char
    \<Rightarrow> string \<Rightarrow> 'e indir_state \<Rightarrow> 'e indir_state" where
  "complete_in_root fs add prefix base dsep root st =
     (case st of (root_dir, dir_prefix, w) \<Rightarrow>
        (let root_dir1 = sbuf_append (sbuf_clear root_dir) root;
             root_dir2 = sbuf_append_char root_dir1 (CHR ''/'');
             root_dir3 = (case base of
                            Some b \<Rightarrow> sbuf_append_n root_dir2 prefix (b - 1)
                          | None \<Rightarrow> root_dir2)
         in snd (filename_complete_indir fs add (root_dir3, dir_prefix, w)
                   (case base of Some b \<Rightarrow> drop b prefix | None \<Rightarrow> prefix) dsep)))"

lemma strchr_Some_less: "c \<noteq> NUL \<Longrightarrow> strchr s c = Some n \<Longrightarrow> n < length s"
  by (induction s arbitrary: n) (auto split: if_splits)

text \<open>
  The loop \<open>while (root != NULL)\<close>; \<open>root\<close> is the rest of the root list.
\<close>

function roots_loop :: "filesystem \<Rightarrow> 'e rp_add \<Rightarrow> string \<Rightarrow> nat option \<Rightarrow> char
    \<Rightarrow> string \<Rightarrow> 'e indir_state \<Rightarrow> 'e indir_state" where
  "roots_loop fs add prefix base dsep root st =
     (case strchr root (CHR '';'') of
        None \<Rightarrow> complete_in_root fs add prefix base dsep root st
      | Some n \<Rightarrow>
          roots_loop fs add prefix base dsep (drop (n + 1) root)
            (complete_in_root fs add prefix base dsep (take n root) st))"
  by pat_completeness auto
termination
proof (relation "measure (\<lambda>(fs, add, prefix, base, dsep, root, st). length root)", goal_cases)
  case 1
  show ?case by simp
next
  case (2 fs add prefix base dsep root st n)
  have "CHR '';'' \<noteq> NUL" by (simp add: NUL_def)
  then have "n < length root" using 2 by (rule strchr_Some_less)
  then show ?case by simp
qed

declare roots_loop.simps [simp del]

text \<open>
  \<open>filename_completer\<close>, the completer behind \<open>rp_complete_filename\<close>; \<open>fclosure\<close> is
  the closure that \<open>cenv->arg\<close> points to. \<open>base\<close> is the offset after the last slash.
  \<open>assert(base != NULL)\<close> is followed in the source by a test of the same condition, which
  is what the model keeps.
\<close>

definition filename_completer :: "filesystem \<Rightarrow> alloc_t \<Rightarrow> filename_closure \<Rightarrow> 'e rp_completer_fun" where
  "filename_completer fs mem fclosure add cenv prefix w =
     (if root_dir_ok mem \<and> dir_prefix_ok mem then
        (let base = map_option Suc (strrchr prefix (CHR ''/''));
             dir_prefix = (case base of Some b \<Rightarrow> sbuf_append_n [] prefix b | None \<Rightarrow> []);
             base_prefix = (case base of Some b \<Rightarrow> drop b prefix | None \<Rightarrow> prefix)
         in if os_path_is_absolute prefix then
              (let root_dir = (case base of Some b \<Rightarrow> sbuf_append_n [] prefix b | None \<Rightarrow> [])
               in snd (snd (snd (filename_complete_indir fs add (root_dir, dir_prefix, w)
                                   base_prefix (dir_sep fclosure)))))
            else
              snd (snd (roots_loop fs add prefix base (dir_sep fclosure) (roots fclosure)
                          ([], dir_prefix, w))))
      else w)"

definition filename_non_word_chars :: string where
  "filename_non_word_chars =
     [CHR 0x20, CHR 0x09, CHR 0x0D, CHR 0x0A] @ [CHR 0x60] @ ''@$><=;|&{(''"

definition rp_complete_filename ::
    "(fun_ptr \<Rightarrow> 'e rp_completion_fun) \<Rightarrow> filesystem \<Rightarrow> alloc_t \<Rightarrow> rp_completion_env \<Rightarrow> string
      \<Rightarrow> char \<Rightarrow> string option \<Rightarrow> 'e world
      \<Rightarrow> error + (rp_completion_env \<times> 'e world \<times> string list)" where
  "rp_complete_filename call fs mem cenv prefix dsep roots_arg w =
     (let roots1 = (case roots_arg of None \<Rightarrow> ''.'' | Some r \<Rightarrow> r);
          fclosure = \<lparr>roots = roots1, dir_sep = dsep\<rparr>;
          cenv1 = cenv\<lparr>arg := Fclosure_ptr\<rparr>
      in rp_complete_quoted_word call mem cenv1 prefix (filename_completer fs mem fclosure)
           (Some filename_non_word_chars) (CHR 0x5C) (Some [CHR 0x27, CHR 0x22]) w)"

section \<open>Specification-level definitions\<close>

text \<open>
  The quote count of the word boundary scan, following the words of the spec: one forward
  pass over the code points of the input; an escape character makes the pass skip the
  character after it; every other character that belongs to the quote set is counted.
  The result lists the byte offsets of the counted quote characters in order (\<open>off\<close> is
  the offset of the first byte of the rest).
\<close>

function unescaped_quotes :: "string \<Rightarrow> char \<Rightarrow> nat \<Rightarrow> string \<Rightarrow> nat list" where
  "unescaped_quotes qs esc off [] = []"
| "unescaped_quotes qs esc off (c # cs) =
     (if c = esc then
        (case cs of
           [] \<Rightarrow> []
         | d # ds \<Rightarrow>
             unescaped_quotes qs esc (off + 2 + length (takeWhile is_follower ds))
               (dropWhile is_follower ds))
      else (if c \<in> set qs then [off] else []) @
           unescaped_quotes qs esc (off + 1 + length (takeWhile is_follower cs))
             (dropWhile is_follower cs))"
  by pat_completeness auto
termination
  by (relation "measure (\<lambda>(qs, esc, off, cs). length cs)")
     (auto simp: less_Suc_eq_le length_dropWhile_le le_SucI)

text \<open>
  Offset \<open>i\<close> is a code point boundary of \<open>s\<close>: the start or the end of the string, or
  a byte that is not a UTF-8 continuation byte.
\<close>

definition code_point_boundary :: "string \<Rightarrow> nat \<Rightarrow> bool" where
  "code_point_boundary s i = (i = 0 \<or> length s \<le> i \<or> \<not> is_follower (s ! i))"

text \<open>
  The character that starts at offset \<open>i\<close> is a separator that is not escaped: it
  belongs to \<open>nwc\<close> and the byte before it, if there is one, is not the escape character.
\<close>

definition unescaped_separator :: "string \<Rightarrow> string \<Rightarrow> char \<Rightarrow> nat \<Rightarrow> bool" where
  "unescaped_separator s nwc esc i =
     (i < length s \<and> s ! i \<in> set nwc \<and> (i = 0 \<or> s ! (i - 1) \<noteq> esc))"

text \<open>
  The two steps of the round trip, each applied to a whole word: the escape step of
  \<open>word_add_completion_ex\<close> (lines 40-52, the branch for an unquoted word) and the
  unescape step of \<open>rp_complete_quoted_word\<close> (lines 122-138).
\<close>

definition escape_word :: "string \<Rightarrow> char \<Rightarrow> string \<Rightarrow> string" where
  "escape_word nwc esc w =
     sbuf_string (escape_loop (sbuf_replace [] w) nwc esc (sbuf_len (sbuf_replace [] w)) 0)"

definition unescape_word :: "string \<Rightarrow> char \<Rightarrow> string \<Rightarrow> string" where
  "unescape_word nwc esc w = unescaped_word w nwc esc NUL 0"

text \<open>The proviso of the round trip: no escape character of \<open>w\<close> is directly followed by a separator.\<close>

fun no_escaped_separator :: "string \<Rightarrow> char \<Rightarrow> string \<Rightarrow> bool" where
  "no_escaped_separator nwc esc (a # b # cs) =
     (\<not> (a = esc \<and> b \<in> set nwc) \<and> no_escaped_separator nwc esc (b # cs))"
| "no_escaped_separator nwc esc cs = True"

text \<open>
  A word that the round trip gives back: the proviso above, and the word does not end
  with the escape character.
\<close>

definition round_trip_ok :: "string \<Rightarrow> char \<Rightarrow> string \<Rightarrow> bool" where
  "round_trip_ok nwc esc w = (no_escaped_separator nwc esc w \<and> (w = [] \<or> last w \<noteq> esc))"

text \<open>
  \<open>escaped nwc esc w e\<close>: \<open>e\<close> is \<open>w\<close> with the escape character inserted before some
  of its separators.
\<close>

inductive escaped :: "string \<Rightarrow> char \<Rightarrow> string \<Rightarrow> string \<Rightarrow> bool" for nwc esc where
  Nil: "escaped nwc esc [] []"
| Keep: "escaped nwc esc w e \<Longrightarrow> escaped nwc esc (c # w) (c # e)"
| Ins: "escaped nwc esc w e \<Longrightarrow> c \<in> set nwc \<Longrightarrow> escaped nwc esc (c # w) (esc # c # e)"

text \<open>
  Enumeration of one directory, following the spec: the entries that match, the text of
  the candidate for an entry, and the proposals made to the sink in order until it answers
  that no more are wanted.

  The entry \<open>name\<close> of the directory \<open>dir\<close> is the file \<open>dir/name\<close>. It is itself a
  directory when the file type of its \<open>st_mode\<close> is \<open>S_IFDIR\<close> (the test \<open>S_ISDIR\<close> of
  POSIX). The candidate of the spec is \<open>dir_prefix + name\<close>, with \<open>dir_sep\<close> appended if
  and only if \<open>dir_sep\<close> is non-zero and the entry is itself a directory.
\<close>

definition is_match :: "string \<Rightarrow> string \<Rightarrow> bool" where
  "is_match base_prefix name =
     (name \<noteq> ''.'' \<and> name \<noteq> ''..'' \<and> rp_starts_with name base_prefix)"

definition entry_is_directory :: "filesystem \<Rightarrow> string \<Rightarrow> string \<Rightarrow> bool" where
  "entry_is_directory fs dir name =
     (case stat fs (dir @ ''/'' @ name) of
        None \<Rightarrow> False
      | Some m \<Rightarrow> m AND S_IFMT = S_IFDIR)"

definition candidate_text :: "filesystem \<Rightarrow> string \<Rightarrow> string \<Rightarrow> char \<Rightarrow> string \<Rightarrow> string" where
  "candidate_text fs dir dprefix dsep name =
     dprefix @ name @ (if dsep \<noteq> NUL \<and> entry_is_directory fs dir name then [dsep] else [])"

text \<open>The part of a path after its last slash.\<close>

definition base_part :: "string \<Rightarrow> string" where
  "base_part path = (case strrchr path (CHR ''/'') of None \<Rightarrow> path | Some i \<Rightarrow> drop (Suc i) path)"

fun propose_all :: "'e rp_add \<Rightarrow> string list \<Rightarrow> 'e world \<Rightarrow> bool \<times> 'e world" where
  "propose_all add [] w = (True, w)"
| "propose_all add (r # rs) w =
     (case add \<lparr>display = None, replacement = r, delete_before = 0, delete_after = 0\<rparr>
             (env_state w) of
        (ok, e) \<Rightarrow>
          if ok then propose_all add rs (w\<lparr>env_state := e, trace := trace w @ [Proposed r ok]\<rparr>)
          else (False, w\<lparr>env_state := e, trace := trace w @ [Proposed r ok]\<rparr>))"

text \<open>The directories opened and the candidates proposed, read off a trace.\<close>

fun opened :: "event list \<Rightarrow> string list" where
  "opened [] = []"
| "opened (Opendir p # evs) = p # opened evs"
| "opened (ev # evs) = opened evs"

fun proposed :: "event list \<Rightarrow> string list" where
  "proposed [] = []"
| "proposed (Proposed r ok # evs) = r # proposed evs"
| "proposed (ev # evs) = proposed evs"

text \<open>The directory portion of a path: everything up to and including the last slash.\<close>

definition dir_part :: "string \<Rightarrow> string" where
  "dir_part path = (case strrchr path (CHR ''/'') of None \<Rightarrow> [] | Some i \<Rightarrow> take (Suc i) path)"

text \<open>
  The parts of the result of a call: the completion environment, the state behind the
  environment pointer, and the trace (the empty trace for a failed assertion).
\<close>

definition cenv_of :: "error + (rp_completion_env \<times> 'e world \<times> string list)
    \<Rightarrow> rp_completion_env option" where
  "cenv_of r = (case r of Inl e \<Rightarrow> None | Inr (cenv, w, ws) \<Rightarrow> Some cenv)"

definition state_of :: "error + (rp_completion_env \<times> 'e world \<times> string list) \<Rightarrow> 'e option" where
  "state_of r = (case r of Inl e \<Rightarrow> None | Inr (cenv, w, ws) \<Rightarrow> Some (env_state w))"

definition trace_of :: "error + (rp_completion_env \<times> 'e world \<times> string list) \<Rightarrow> event list" where
  "trace_of r = (case r of Inl e \<Rightarrow> [] | Inr (cenv, w, ws) \<Rightarrow> trace w)"

section \<open>Example inputs\<close>

text \<open>
  A sink that stores every candidate it is given and always gives the same answer; a
  directory tree with the roots \<open>.\<close> and \<open>/usr\<close>, in which directories have the mode
  040755 (\<open>0x41ED\<close>), regular files 0100644 (\<open>0x81A4\<close>), the character device
  \<open>/dev/null\<close> 020666 (\<open>0x21B6\<close>) and the block device \<open>/dev/sda\<close> 060660
  (\<open>0x61B0\<close>), and files are named as the completer names them (the directory with its
  final slash, a slash, the entry); an allocator that never fails; a completion environment
  whose sink has no closure (\<open>NULL\<close>); and a user completer that proposes \<open>he world\<close>
  once.
\<close>

definition recording_sink :: "bool \<Rightarrow> fun_ptr \<Rightarrow> (candidate list) rp_completion_fun" where
  "recording_sink answer f e clo c = (answer, e @ [c])"

definition example_fs :: filesystem where
  "example_fs =
     \<lparr>dir_entries = (\<lambda>p.
        if p = ''./'' then Some [''.'', ''..'', ''src'', ''test'', ''README.md'']
        else if p = ''/usr/'' then Some [''.'', ''..'', ''share'', ''sbin'']
        else if p = ''/etc/'' then Some [''.'', ''..'', ''passwd'', ''pam.d'']
        else if p = ''/dev/'' then Some [''.'', ''..'', ''null'', ''sda'', ''shm'']
        else None),
      stat = (\<lambda>p.
        if p \<in> {''.//src'', ''.//test'', ''/usr//share'', ''/usr//sbin'', ''/etc//pam.d'',
                 ''/dev//shm''} then Some 0x41ED
        else if p \<in> {''.//README.md'', ''/etc//passwd''} then Some 0x81A4
        else if p = ''/dev//null'' then Some 0x21B6
        else if p = ''/dev//sda'' then Some 0x61B0
        else None)\<rparr>"

definition all_ok :: alloc_t where
  "all_ok = \<lparr>word_ok = True, sbuf_ok = True, root_dir_ok = True, dir_prefix_ok = True\<rparr>"

definition top_cenv :: rp_completion_env where
  "top_cenv = \<lparr>env = 1000, arg = Addr 0, closure = Addr 0, complete = Completion_fun 1\<rparr>"

definition empty_world :: "candidate list world" where
  "empty_world = \<lparr>env_state = [], trace = []\<rparr>"

definition he_world :: proposals where
  "he_world =
     Propose \<lparr>display = None, replacement = ''he world'', delete_before = 0, delete_after = 0\<rparr>
       (\<lambda>ok. Done)"

text \<open>
  Three more proposals: \<open>hello world\<close> without a display text; \<open>foo bar\<close> with a display
  text and with bytes to delete on both sides; and one with \<open>delete_before = LONG_MAX\<close>.
\<close>

definition hello_world :: proposals where
  "hello_world =
     Propose \<lparr>display = None, replacement = ''hello world'', delete_before = 0, delete_after = 0\<rparr>
       (\<lambda>ok. Done)"

definition foo_bar :: proposals where
  "foo_bar =
     Propose \<lparr>display = Some ''Foo Bar'', replacement = ''foo bar'',
              delete_before = 2, delete_after = 3\<rparr>
       (\<lambda>ok. Done)"

definition far_back :: candidate where
  "far_back =
     \<lparr>display = None, replacement = ''he world'',
      delete_before = 0x7FFFFFFFFFFFFFFF, delete_after = 0\<rparr>"

section \<open>Properties of the C string functions and of the cursor\<close>

text \<open>
  The cursor never leaves the buffer: a forward step is positive exactly before the
  end, a backward step is positive exactly after the start and never passes it.
\<close>

lemma str_next_ofs_pos: "pos < len \<Longrightarrow> 0 < str_next_ofs s len pos"
  by (simp add: str_next_ofs_def)

lemma str_next_ofs_end: "len \<le> pos \<Longrightarrow> str_next_ofs s len pos = 0"
  by (simp add: str_next_ofs_def)

lemma str_next_ofs_le: "len \<le> length s \<Longrightarrow> pos + str_next_ofs s len pos \<le> max pos len"
proof (cases "pos < len")
  case True
  assume "len \<le> length s"
  have "length (takeWhile is_follower (drop (pos + 1) (take len s)))
          \<le> length (drop (pos + 1) (take len s))"
    by (rule length_takeWhile_le)
  with True \<open>len \<le> length s\<close> show ?thesis
    by (simp add: str_next_ofs_def)
next
  case False
  then show ?thesis by (simp add: str_next_ofs_def)
qed

lemma str_prev_ofs_pos: "0 < pos \<Longrightarrow> 0 < str_prev_ofs s pos"
  by (simp add: str_prev_ofs_def)

lemma str_prev_ofs_le: "str_prev_ofs s pos \<le> pos"
  by (simp add: str_prev_ofs_def)

lemma strchr_None_iff: "strchr s c = None \<longleftrightarrow> c \<noteq> NUL \<and> c \<notin> set s"
  by (induction s) auto

lemma strchr_iff: "(\<exists>n. strchr s c = Some n) \<longleftrightarrow> c = NUL \<or> c \<in> set s"
  using strchr_None_iff[of s c] by (cases "strchr s c") auto

lemma next_ofs_drop:
  "pos < length s \<Longrightarrow>
     str_next_ofs s (length s) pos = 1 + length (takeWhile is_follower (drop (Suc pos) s))"
  by (simp add: str_next_ofs_def)

lemma drop_followers:
  "drop (pos + length (takeWhile is_follower (drop pos s))) s = dropWhile is_follower (drop pos s)"
  by (simp add: dropWhile_eq_drop add.commute)

section \<open>The forward scan\<close>

text \<open>The assertion \<open>qpos >= 0\<close> holds whenever the quote count is odd.\<close>

lemma quote_loop_inv:
  "(odd qcount \<longrightarrow> qpos \<noteq> None) \<Longrightarrow> quote_loop s qs esc pos qpos qcount = (qp, qc)
     \<Longrightarrow> odd qc \<longrightarrow> qp \<noteq> None"
proof (induction s qs esc pos qpos qcount rule: quote_loop.induct)
  case (1 s qs esc pos qpos qcount)
  show ?case
  proof (cases "pos < length s")
    case False
    with "1.prems" show ?thesis by (simp add: quote_loop.simps)
  next
    case True
    obtain pos1 qpos1 qcount1 where st: "quote_step s qs esc pos qpos qcount = (pos1, qpos1, qcount1)"
      by (cases "quote_step s qs esc pos qpos qcount") auto
    have inv1: "odd qcount1 \<longrightarrow> qpos1 \<noteq> None"
      using st "1.prems"(1) by (auto simp: quote_step_def split: if_splits)
    show ?thesis
    proof (cases "str_next_ofs s (length s) pos1 \<le> 0")
      case True
      with \<open>pos < length s\<close> st "1.prems"(2) inv1 show ?thesis
        by (simp add: quote_loop.simps[of s qs esc pos])
    next
      case False
      with \<open>pos < length s\<close> st "1.prems"(2)
      have "quote_loop s qs esc (pos1 + str_next_ofs s (length s) pos1) qpos1 qcount1 = (qp, qc)"
        by (simp add: quote_loop.simps[of s qs esc pos])
      with "1.IH"[OF \<open>pos < length s\<close> st[symmetric] refl refl False inv1] show ?thesis by simp
    qed
  qed
qed

lemma quote_loop_spec:
  "NUL \<notin> set s \<Longrightarrow> quote_loop s qs esc pos qpos qcount =
     (let Q = unescaped_quotes qs esc pos (drop pos s) in
      (if Q = [] then qpos else if odd (qcount + length Q) then Some (last Q) else None,
       qcount + length Q))"
proof (induction s qs esc pos qpos qcount rule: quote_loop.induct)
  case (1 s qs esc pos qpos qcount)
  show ?case
  proof (cases "pos < length s")
    case False
    then show ?thesis by (simp add: quote_loop.simps)
  next
    case True
    then have dr: "drop pos s = s ! pos # drop (Suc pos) s"
      by (simp add: Cons_nth_drop_Suc)
    from True "1.prems" have nz: "s ! pos \<noteq> NUL"
      by (metis nth_mem)
    have ca: "char_at s pos = s ! pos" using True by (simp add: char_at_def)
    consider (esc) "s ! pos = esc" | (quote) "s ! pos \<noteq> esc" "s ! pos \<in> set qs"
      | (other) "s ! pos \<noteq> esc" "s ! pos \<notin> set qs" by blast
    then show ?thesis
    proof cases
      case esc
      then have st: "quote_step s qs esc pos qpos qcount = (pos + 1, qpos, qcount)"
        by (simp add: quote_step_def ca)
      show ?thesis
      proof (cases "Suc pos < length s")
        case False
        with True have "drop (Suc pos) s = []" by simp
        with True False st esc dr show ?thesis
          by (simp add: quote_loop.simps[of s qs esc pos] str_next_ofs_def)
      next
        case l: True
        let ?k = "length (takeWhile is_follower (drop (Suc (Suc pos)) s))"
        have ofs: "str_next_ofs s (length s) (pos + 1) = 1 + ?k"
          using l by (simp add: next_ofs_drop)
        have dr2: "drop (Suc pos) s = s ! Suc pos # drop (Suc (Suc pos)) s"
          using l by (simp add: Cons_nth_drop_Suc)
        have dd: "drop (pos + 1 + (1 + ?k)) s = dropWhile is_follower (drop (Suc (Suc pos)) s)"
          using drop_followers[of "Suc (Suc pos)" s] by (simp add: add.commute)
        have "quote_loop s qs esc pos qpos qcount
                = quote_loop s qs esc (pos + 1 + (1 + ?k)) qpos qcount"
          using True st ofs by (simp add: quote_loop.simps[of s qs esc pos])
        also have "\<dots> = (let Q = unescaped_quotes qs esc (pos + 1 + (1 + ?k)) (drop (pos + 1 + (1 + ?k)) s) in
      (if Q = [] then qpos else if odd (qcount + length Q) then Some (last Q) else None,
       qcount + length Q))"
          using "1.IH"[OF True st[symmetric] refl refl] ofs "1.prems" by simp
        finally show ?thesis
          using esc dr dr2 dd by (simp add: Let_def)
      qed
    next
      case quote
      let ?k = "length (takeWhile is_follower (drop (Suc pos) s))"
      let ?qpos1 = "if qcount mod 2 = 1 then None else Some pos"
      have st: "quote_step s qs esc pos qpos qcount = (pos, ?qpos1, qcount + 1)"
        using quote by (simp add: quote_step_def ca strchr_iff)
      have ofs: "str_next_ofs s (length s) pos = 1 + ?k"
        using True by (simp add: next_ofs_drop)
      have dd: "drop (pos + (1 + ?k)) s = dropWhile is_follower (drop (Suc pos) s)"
        using drop_followers[of "Suc pos" s] by (simp add: add.commute)
      have "quote_loop s qs esc pos qpos qcount
              = quote_loop s qs esc (pos + (1 + ?k)) ?qpos1 (qcount + 1)"
        using True st ofs by (simp add: quote_loop.simps[of s qs esc pos])
      also have "\<dots> = (let Q = unescaped_quotes qs esc (pos + (1 + ?k)) (drop (pos + (1 + ?k)) s) in
      (if Q = [] then ?qpos1 else if odd (qcount + 1 + length Q) then Some (last Q) else None,
       qcount + 1 + length Q))"
        using "1.IH"[OF True st[symmetric] refl refl] ofs "1.prems" by simp
      finally show ?thesis
        using quote dr dd by (simp add: Let_def odd_iff_mod_2_eq_one)
    next
      case other
      let ?k = "length (takeWhile is_follower (drop (Suc pos) s))"
      have st: "quote_step s qs esc pos qpos qcount = (pos, qpos, qcount)"
        using other nz by (simp add: quote_step_def ca strchr_iff)
      have ofs: "str_next_ofs s (length s) pos = 1 + ?k"
        using True by (simp add: next_ofs_drop)
      have dd: "drop (pos + (1 + ?k)) s = dropWhile is_follower (drop (Suc pos) s)"
        using drop_followers[of "Suc pos" s] by (simp add: add.commute)
      have "quote_loop s qs esc pos qpos qcount
              = quote_loop s qs esc (pos + (1 + ?k)) qpos qcount"
        using True st ofs by (simp add: quote_loop.simps[of s qs esc pos])
      also have "\<dots> = (let Q = unescaped_quotes qs esc (pos + (1 + ?k)) (drop (pos + (1 + ?k)) s) in
      (if Q = [] then qpos else if odd (qcount + length Q) then Some (last Q) else None,
       qcount + length Q))"
        using "1.IH"[OF True st[symmetric] refl refl] ofs "1.prems" by simp
      finally show ?thesis
        using other dr dd by (simp add: Let_def)
    qed
  qed
qed


lemma unescaped_quotes_bounds:
  "q \<in> set (unescaped_quotes qs esc off cs) \<Longrightarrow>
     off \<le> q \<and> q < off + length cs \<and> cs ! (q - off) \<in> set qs \<and> cs ! (q - off) \<noteq> esc"
proof (induction qs esc off cs rule: unescaped_quotes.induct)
  case (1 qs esc off)
  then show ?case by simp
next
  case (2 qs esc off c cs)
  show ?case
  proof (cases "c = esc")
    case True
    show ?thesis
    proof (cases cs)
      case Nil
      with True "2.prems" show ?thesis by simp
    next
      case (Cons d ds)
      let ?k = "length (takeWhile is_follower ds)"
      from True Cons "2.prems"
      have "q \<in> set (unescaped_quotes qs esc (off + 2 + ?k) (dropWhile is_follower ds))" by simp
      from "2.IH"(1)[OF True Cons this]
      have a: "off + 2 + ?k \<le> q" and b: "q < off + 2 + ?k + length (dropWhile is_follower ds)"
        and c: "dropWhile is_follower ds ! (q - (off + 2 + ?k)) \<in> set qs"
        and d: "dropWhile is_follower ds ! (q - (off + 2 + ?k)) \<noteq> esc" by auto
      have len: "?k + length (dropWhile is_follower ds) = length ds"
        by (metis length_append takeWhile_dropWhile_id)
      have kl: "?k \<le> length ds" by (rule length_takeWhile_le)
      have nth: "dropWhile is_follower ds ! (q - (off + 2 + ?k)) = (c # cs) ! (q - off)"
      proof -
        have "dropWhile is_follower ds ! (q - (off + 2 + ?k)) = ds ! (?k + (q - (off + 2 + ?k)))"
          using kl by (simp add: dropWhile_eq_drop)
        also have "?k + (q - (off + 2 + ?k)) = q - off - 2" using a by simp
        also have "ds ! (q - off - 2) = (c # cs) ! (q - off)"
          using a Cons by (simp add: nth_Cons' numeral_2_eq_2)
        finally show ?thesis .
      qed
      from a b c d len nth Cons show ?thesis by simp
    qed
  next
    case False
    let ?k = "length (takeWhile is_follower cs)"
    from False "2.prems"
    consider (here) "q = off" "c \<in> set qs"
      | (later) "q \<in> set (unescaped_quotes qs esc (off + 1 + ?k) (dropWhile is_follower cs))"
      by (auto split: if_splits)
    then show ?thesis
    proof cases
      case here
      with False show ?thesis by simp
    next
      case later
      from "2.IH"(2)[OF False this]
      have a: "off + 1 + ?k \<le> q" and b: "q < off + 1 + ?k + length (dropWhile is_follower cs)"
        and c: "dropWhile is_follower cs ! (q - (off + 1 + ?k)) \<in> set qs"
        and d: "dropWhile is_follower cs ! (q - (off + 1 + ?k)) \<noteq> esc" by auto
      have len: "?k + length (dropWhile is_follower cs) = length cs"
        by (metis length_append takeWhile_dropWhile_id)
      have kl: "?k \<le> length cs" by (rule length_takeWhile_le)
      have nth: "dropWhile is_follower cs ! (q - (off + 1 + ?k)) = (c # cs) ! (q - off)"
      proof -
        have "dropWhile is_follower cs ! (q - (off + 1 + ?k)) = cs ! (?k + (q - (off + 1 + ?k)))"
          using kl by (simp add: dropWhile_eq_drop)
        also have "?k + (q - (off + 1 + ?k)) = q - off - 1" using a by simp
        also have "cs ! (q - off - 1) = (c # cs) ! (q - off)"
          using a by (simp add: nth_Cons')
        finally show ?thesis .
      qed
      from a b c d len nth show ?thesis by simp
    qed
  qed
qed

lemma find_quote_spec:
  assumes "NUL \<notin> set s" and "NUL \<notin> set qs"
  shows "find_quote s qs esc =
           (let Q = unescaped_quotes qs esc 0 s in
            if odd (length Q) then Inr (s ! last Q, last Q + 1) else Inr (NUL, length s))"
proof (cases "qs = []")
  case True
  have "unescaped_quotes [] esc off cs = []" for off cs
    by (induction "[] :: string" esc off cs rule: unescaped_quotes.induct) (auto split: list.splits)
  with True show ?thesis by (simp add: find_quote_def char_at_def)
next
  case False
  then have "char_at qs 0 \<noteq> NUL" using assms(2)
    by (cases qs) (auto simp: char_at_def)
  moreover have "last Q < length s" if "Q = unescaped_quotes qs esc 0 s" "Q \<noteq> []" for Q
    using unescaped_quotes_bounds[of "last Q" qs esc 0 s] that by simp
  ultimately show ?thesis
    using quote_loop_spec[OF assms(1), of qs esc 0 None 0]
    by (auto simp: find_quote_def Let_def char_at_def odd_iff_mod_2_eq_one)
qed

text \<open>
  Claim C1. For C strings \<open>s\<close> (the prefix) and \<open>qs\<close> (the quote set) and every escape
  character: let \<open>Q\<close> be the offsets of the un-escaped quote characters of \<open>s\<close>. If their
  number is odd, the scan answers the character at the last of them, which is the
  occurrence of even zero-based index \<open>length Q - 1\<close>, an opening quote, and the word
  starts at the byte after it. If their number is even, the scan answers no quote
  (unquoted mode), and the word start is the one found by the backward scan.
\<close>

theorem quote_parity:
  assumes "NUL \<notin> set s" and "NUL \<notin> set qs"
  shows "let Q = unescaped_quotes qs esc 0 s in
           (odd (length Q) \<longrightarrow>
              last Q = Q ! (length Q - 1) \<and> even (length Q - 1) \<and>
              last Q < length s \<and> s ! last Q \<in> set qs \<and>
              word_boundary s nwc esc qs = Inr (s ! last Q, last Q + 1)) \<and>
           (even (length Q) \<longrightarrow>
              word_boundary s nwc esc qs = Inr (NUL, word_loop s nwc esc (length s)))"
proof -
  define Q where "Q = unescaped_quotes qs esc 0 s"
  have fq: "find_quote s qs esc =
              (if odd (length Q) then Inr (s ! last Q, last Q + 1) else Inr (NUL, length s))"
    using find_quote_spec[OF assms, of esc] by (simp add: Q_def Let_def)
  have odd_case: "last Q = Q ! (length Q - 1) \<and> even (length Q - 1) \<and>
              last Q < length s \<and> s ! last Q \<in> set qs \<and>
              word_boundary s nwc esc qs = Inr (s ! last Q, last Q + 1)" if o: "odd (length Q)"
  proof -
    from o have ne: "Q \<noteq> []" by auto
    then have m: "last Q \<in> set Q" by simp
    from unescaped_quotes_bounds[of "last Q" qs esc 0 s] m
    have lt: "last Q < length s" and q: "s ! last Q \<in> set qs" by (simp_all add: Q_def)
    from lt assms(1) have "s ! last Q \<noteq> NUL" by (metis nth_mem)
    with fq o have "word_boundary s nwc esc qs = Inr (s ! last Q, last Q + 1)"
      by (simp add: word_boundary_def)
    with ne o lt q show ?thesis by (simp add: last_conv_nth)
  qed
  have even_case: "word_boundary s nwc esc qs = Inr (NUL, word_loop s nwc esc (length s))"
    if "even (length Q)"
    using fq that by (simp add: word_boundary_def)
  show ?thesis
    unfolding Let_def Q_def[symmetric] using odd_case even_case by blast
qed


text \<open>
  In \<open>say "it is\<close> one quote is open: the word starts after it, at offset 5. In
  \<open>a "b" c\<close> the two quotes match: the scan is in unquoted mode, and the word starts after
  the last space, at offset 6.
\<close>

theorem quote_parity_witness:
  "NUL \<notin> set (''say '' @ [CHR 0x22] @ ''it is'') \<and> NUL \<notin> set [CHR 0x27, CHR 0x22] \<and>
   odd (length (unescaped_quotes [CHR 0x27, CHR 0x22] (CHR 0x5C) 0 (''say '' @ [CHR 0x22] @ ''it is''))) \<and>
   word_boundary (''say '' @ [CHR 0x22] @ ''it is'') default_non_word_chars (CHR 0x5C)
     [CHR 0x27, CHR 0x22] = Inr (CHR 0x22, 5) \<and>
   NUL \<notin> set (''a '' @ [CHR 0x22] @ ''b'' @ [CHR 0x22] @ '' c'') \<and>
   even (length (unescaped_quotes [CHR 0x27, CHR 0x22] (CHR 0x5C) 0
                   (''a '' @ [CHR 0x22] @ ''b'' @ [CHR 0x22] @ '' c''))) \<and>
   word_boundary (''a '' @ [CHR 0x22] @ ''b'' @ [CHR 0x22] @ '' c'') default_non_word_chars (CHR 0x5C)
     [CHR 0x27, CHR 0x22] = Inr (NUL, 6)"
proof -
  have loop: "word_loop (''a '' @ [CHR 0x22] @ ''b'' @ [CHR 0x22] @ '' c'') default_non_word_chars
                (CHR 0x5C) (length (''a '' @ [CHR 0x22] @ ''b'' @ [CHR 0x22] @ '' c'')) = 6"
    by code_simp
  have a: "NUL \<notin> set (''say '' @ [CHR 0x22] @ ''it is'') \<and> NUL \<notin> set [CHR 0x27, CHR 0x22] \<and>
   odd (length (unescaped_quotes [CHR 0x27, CHR 0x22] (CHR 0x5C) 0 (''say '' @ [CHR 0x22] @ ''it is''))) \<and>
   word_boundary (''say '' @ [CHR 0x22] @ ''it is'') default_non_word_chars (CHR 0x5C)
     [CHR 0x27, CHR 0x22] = Inr (CHR 0x22, 5)"
    using quote_parity[of "''say '' @ [CHR 0x22] @ ''it is''" "[CHR 0x27, CHR 0x22]" "CHR 0x5C"
        default_non_word_chars]
    by (simp add: NUL_def is_follower_def Let_def)
  have b: "NUL \<notin> set (''a '' @ [CHR 0x22] @ ''b'' @ [CHR 0x22] @ '' c'') \<and>
   even (length (unescaped_quotes [CHR 0x27, CHR 0x22] (CHR 0x5C) 0
                   (''a '' @ [CHR 0x22] @ ''b'' @ [CHR 0x22] @ '' c''))) \<and>
   word_boundary (''a '' @ [CHR 0x22] @ ''b'' @ [CHR 0x22] @ '' c'') default_non_word_chars (CHR 0x5C)
     [CHR 0x27, CHR 0x22] = Inr (NUL, 6)"
    using quote_parity[of "''a '' @ [CHR 0x22] @ ''b'' @ [CHR 0x22] @ '' c''" "[CHR 0x27, CHR 0x22]"
        "CHR 0x5C" default_non_word_chars] loop
    by (simp add: NUL_def is_follower_def Let_def)
  from a b show ?thesis by simp
qed

section \<open>The backward scan\<close>

text \<open>
  One step back of the cursor lands on a code point boundary, and every byte it steps
  over after the first is a continuation byte.
\<close>

lemma prev_ofs_followers:
  assumes "0 < pos" "pos \<le> length s" "pos - str_prev_ofs s pos < i" "i < pos"
  shows "is_follower (s ! i)"
proof -
  let ?xs = "rev (take pos s)"
  let ?k = "length (takeWhile is_follower ?xs)"
  have lx: "length ?xs = pos" using assms(2) by simp
  have ofs: "str_prev_ofs s pos = min pos (1 + ?k)" using assms(1) by (simp add: str_prev_ofs_def)
  let ?j = "pos - 1 - i"
  have j: "?j < ?k" using assms(3,4) ofs by (auto simp: min_def split: if_splits)
  have "?xs ! ?j = takeWhile is_follower ?xs ! ?j" using j by (simp add: takeWhile_nth)
  moreover have "takeWhile is_follower ?xs ! ?j \<in> set (takeWhile is_follower ?xs)"
    using j by simp
  ultimately have "is_follower (?xs ! ?j)" by (metis set_takeWhileD)
  moreover have "?xs ! ?j = s ! i" using assms(2,4) by (simp add: rev_nth)
  ultimately show ?thesis by simp
qed

lemma prev_ofs_boundary:
  assumes "0 < pos" "pos \<le> length s"
  shows "code_point_boundary s (pos - str_prev_ofs s pos)"
proof -
  let ?xs = "rev (take pos s)"
  let ?k = "length (takeWhile is_follower ?xs)"
  have lx: "length ?xs = pos" using assms(2) by simp
  have ofs: "str_prev_ofs s pos = min pos (1 + ?k)" using assms(1) by (simp add: str_prev_ofs_def)
  show ?thesis
  proof (cases "?k < pos")
    case True
    then have "\<not> is_follower (?xs ! ?k)" using lx by (metis nth_length_takeWhile)
    moreover have "?xs ! ?k = s ! (pos - 1 - ?k)" using True assms(2) by (simp add: rev_nth)
    moreover have "pos - str_prev_ofs s pos = pos - 1 - ?k" using True ofs by simp
    ultimately show ?thesis by (simp add: code_point_boundary_def)
  next
    case False
    then have "pos - str_prev_ofs s pos = 0" using ofs by simp
    then show ?thesis by (simp add: code_point_boundary_def)
  qed
qed

lemma word_loop_spec:
  "NUL \<notin> set s \<Longrightarrow> pos \<le> length s \<Longrightarrow> code_point_boundary s pos \<Longrightarrow>
     (let p = word_loop s nwc esc pos in
        p \<le> pos \<and> code_point_boundary s p \<and>
        (0 < p \<longrightarrow> unescaped_separator s nwc esc (p - str_prev_ofs s p)) \<and>
        (\<forall>i. p \<le> i \<and> i < pos \<and> code_point_boundary s i \<longrightarrow> \<not> unescaped_separator s nwc esc i))"
proof (induction s nwc esc pos rule: word_loop.induct)
  case (1 s nwc esc pos)
  show ?case
  proof (cases "0 < pos")
    case False
    then show ?thesis by (simp add: word_loop.simps code_point_boundary_def)
  next
    case True
    let ?ofs = "str_prev_ofs s pos"
    let ?q = "pos - ?ofs"
    have ofs_pos: "0 < ?ofs" using True by (rule str_prev_ofs_pos)
    have ofs_le: "?ofs \<le> pos" by (rule str_prev_ofs_le)
    have q_lt: "?q < pos" using ofs_pos True by simp
    then have q_len: "?q < length s" using "1.prems"(2) by simp
    have nz: "s ! ?q \<noteq> NUL" using q_len "1.prems"(1) by (metis nth_mem)
    have ca: "char_at s ?q = s ! ?q" using q_len by (simp add: char_at_def)
    have "?q - 1 < length s" using q_len by arith
    then have ca1: "char_at s (?q - 1) = s ! (?q - 1)" by (simp add: char_at_def)
    have cond: "(strchr nwc (char_at s ?q) \<noteq> None
                  \<and> (pos \<le> ?ofs \<or> char_at s (?q - 1) \<noteq> esc))
                \<longleftrightarrow> unescaped_separator s nwc esc ?q"
    proof (cases "pos \<le> ?ofs")
      case True
      then have "?q = 0" by simp
      with True ca nz q_len show ?thesis
        by (simp add: unescaped_separator_def strchr_iff)
    next
      case False
      then have "0 < ?q" by simp
      with False ca ca1 nz q_len show ?thesis
        by (simp add: unescaped_separator_def strchr_iff)
    qed
    show ?thesis
    proof (cases "unescaped_separator s nwc esc ?q")
      case sep: True
      have "word_loop s nwc esc pos = pos"
        using True ofs_pos cond sep by (simp add: word_loop.simps[of s nwc esc pos] Let_def)
      with sep "1.prems"(3) True show ?thesis by (auto simp: Let_def)
    next
      case nosep: False
      have step: "word_loop s nwc esc pos = word_loop s nwc esc ?q"
        using True ofs_pos cond nosep by (auto simp: word_loop.simps[of s nwc esc pos] Let_def)
      have bq: "code_point_boundary s ?q"
        using True "1.prems"(2) by (rule prev_ofs_boundary)
      have "\<not> (strchr nwc (char_at s ?q) \<noteq> None
                  \<and> (pos \<le> ?ofs \<or> char_at s (?q - 1) \<noteq> esc))"
        using cond nosep by blast
      from "1.IH"[OF True refl _ this "1.prems"(1) _ bq] ofs_pos q_len
      have ih: "let p = word_loop s nwc esc ?q in
        p \<le> ?q \<and> code_point_boundary s p \<and>
        (0 < p \<longrightarrow> unescaped_separator s nwc esc (p - str_prev_ofs s p)) \<and>
        (\<forall>i. p \<le> i \<and> i < ?q \<and> code_point_boundary s i \<longrightarrow> \<not> unescaped_separator s nwc esc i)"
        by simp
      have between: "\<not> code_point_boundary s i" if "?q < i" "i < pos" for i
      proof -
        have "is_follower (s ! i)" using True "1.prems"(2) that by (rule prev_ofs_followers)
        moreover have "0 < i" "i < length s" using that "1.prems"(2) by simp_all
        ultimately show ?thesis by (simp add: code_point_boundary_def)
      qed
      have ext: "\<not> unescaped_separator s nwc esc i"
        if "word_loop s nwc esc ?q \<le> i" "i < pos" "code_point_boundary s i" for i
      proof -
        consider "i < ?q" | "i = ?q" | "?q < i" by linarith
        then show ?thesis
        proof cases
          case 1
          with ih that show ?thesis by (simp add: Let_def)
        next
          case 2
          with nosep show ?thesis by simp
        next
          case 3
          with between that show ?thesis by blast
        qed
      qed
      from ih ext q_lt show ?thesis by (auto simp: step Let_def)
    qed
  qed
qed


text \<open>
  Claim C6. Let \<open>s\<close> be a C string on which the forward scan found no open quote (the
  quote count is even). Then the word start \<open>p\<close> is a code point boundary of \<open>s\<close>;
  if \<open>p > 0\<close>, the code point just before \<open>p\<close> (it starts at \<open>p - str_prev_ofs s p\<close>,
  itself a boundary, and all its other bytes are continuation bytes) is a separator
  that is not preceded by the escape character; and no code point that starts at or
  after \<open>p\<close> is such a separator, so the scan stopped at the first one counted from the
  end, and \<open>p = 0\<close> only if there is none. The cursor \<open>str_prev_ofs\<close> is the one
  modelled from the spec.
\<close>

theorem backward_scan:
  assumes "NUL \<notin> set s" and "find_quote s qs esc = Inr (NUL, x)"
  shows "\<exists>p. word_boundary s nwc esc qs = Inr (NUL, p) \<and>
           p \<le> length s \<and> code_point_boundary s p \<and>
           (0 < p \<longrightarrow>
              unescaped_separator s nwc esc (p - str_prev_ofs s p) \<and>
              code_point_boundary s (p - str_prev_ofs s p) \<and>
              (\<forall>j. p - str_prev_ofs s p < j \<and> j < p \<longrightarrow> is_follower (s ! j))) \<and>
           (\<forall>i. p \<le> i \<and> i < length s \<and> code_point_boundary s i
                 \<longrightarrow> \<not> unescaped_separator s nwc esc i)"
proof -
  define p where "p = word_loop s nwc esc (length s)"
  have wb: "word_boundary s nwc esc qs = Inr (NUL, p)"
    using assms(2) by (simp add: word_boundary_def p_def)
  have b: "code_point_boundary s (length s)" by (simp add: code_point_boundary_def)
  have spec: "p \<le> length s \<and> code_point_boundary s p \<and>
        (0 < p \<longrightarrow> unescaped_separator s nwc esc (p - str_prev_ofs s p)) \<and>
        (\<forall>i. p \<le> i \<and> i < length s \<and> code_point_boundary s i \<longrightarrow> \<not> unescaped_separator s nwc esc i)"
    using word_loop_spec[OF assms(1) le_refl b, of nwc esc] unfolding Let_def p_def .
  then have le: "p \<le> length s" by (rule conjunct1)
  have bq: "code_point_boundary s (p - str_prev_ofs s p)" if "0 < p"
    using that le by (rule prev_ofs_boundary)
  have fol: "is_follower (s ! j)" if "0 < p" "p - str_prev_ofs s p < j" "j < p" for j
    using that(1) le that(2,3) by (rule prev_ofs_followers)
  have part: "0 < p \<longrightarrow>
              unescaped_separator s nwc esc (p - str_prev_ofs s p) \<and>
              code_point_boundary s (p - str_prev_ofs s p) \<and>
              (\<forall>j. p - str_prev_ofs s p < j \<and> j < p \<longrightarrow> is_follower (s ! j))"
  proof
    assume pos: "0 < p"
    from spec pos have "unescaped_separator s nwc esc (p - str_prev_ofs s p)" by simp
    moreover from pos have "code_point_boundary s (p - str_prev_ofs s p)" by (rule bq)
    moreover from pos have "\<forall>j. p - str_prev_ofs s p < j \<and> j < p \<longrightarrow> is_follower (s ! j)"
      using fol by simp
    ultimately show "unescaped_separator s nwc esc (p - str_prev_ofs s p) \<and>
              code_point_boundary s (p - str_prev_ofs s p) \<and>
              (\<forall>j. p - str_prev_ofs s p < j \<and> j < p \<longrightarrow> is_follower (s ! j))"
      by (intro conjI)
  qed
  show ?thesis
  proof (intro exI conjI)
    show "word_boundary s nwc esc qs = Inr (NUL, p)" by (rule wb)
    show "p \<le> length s" by (rule le)
    show "code_point_boundary s p" using spec by simp
    show "0 < p \<longrightarrow>
              unescaped_separator s nwc esc (p - str_prev_ofs s p) \<and>
              code_point_boundary s (p - str_prev_ofs s p) \<and>
              (\<forall>j. p - str_prev_ofs s p < j \<and> j < p \<longrightarrow> is_follower (s ! j))" by (rule part)
    show "\<forall>i. p \<le> i \<and> i < length s \<and> code_point_boundary s i
                 \<longrightarrow> \<not> unescaped_separator s nwc esc i" using spec by simp
  qed
qed


text \<open>
  For \<open>ls caf\<close> followed by the two bytes of U+00E9, the scan steps over the two-byte
  code point at once and stops after the space: the word starts at offset 3.
\<close>

theorem backward_scan_witness:
  "NUL \<notin> set (''ls caf'' @ [CHR 0xC3, CHR 0xA9]) \<and>
   find_quote (''ls caf'' @ [CHR 0xC3, CHR 0xA9]) default_quote_chars (CHR 0x5C) = Inr (NUL, 8) \<and>
   word_boundary (''ls caf'' @ [CHR 0xC3, CHR 0xA9]) default_non_word_chars (CHR 0x5C) default_quote_chars
     = Inr (NUL, 3) \<and>
   unescaped_separator (''ls caf'' @ [CHR 0xC3, CHR 0xA9]) default_non_word_chars (CHR 0x5C) 2 \<and>
   code_point_boundary (''ls caf'' @ [CHR 0xC3, CHR 0xA9]) 3"
proof -
  let ?s = "''ls caf'' @ [CHR 0xC3, CHR 0xA9]"
  have h1: "NUL \<notin> set ?s" by (simp add: NUL_def)
  have h2: "find_quote ?s default_quote_chars (CHR 0x5C) = Inr (NUL, 8)" by code_simp
  have wb: "word_boundary ?s default_non_word_chars (CHR 0x5C) default_quote_chars = Inr (NUL, 3)"
    by code_simp
  have ofs: "3 - str_prev_ofs ?s 3 = 2" by code_simp
  from backward_scan[OF h1 h2, of default_non_word_chars]
  obtain p where p: "word_boundary ?s default_non_word_chars (CHR 0x5C) default_quote_chars = Inr (NUL, p)"
    and bp: "code_point_boundary ?s p"
    and sep: "0 < p \<longrightarrow> unescaped_separator ?s default_non_word_chars (CHR 0x5C) (p - str_prev_ofs ?s p)"
    by blast
  from p wb have p3: "p = 3" by simp
  from sep p3 ofs have "unescaped_separator ?s default_non_word_chars (CHR 0x5C) 2" by simp
  moreover from bp p3 have "code_point_boundary ?s 3" by simp
  ultimately show ?thesis using h1 h2 wb by (intro conjI)
qed

section \<open>Enumeration of one directory\<close>

lemma c_str_id: "NUL \<notin> set s \<Longrightarrow> c_str s = s"
  by (auto simp: c_str_def takeWhile_eq_all_conv)

lemma c_str_no_NUL: "NUL \<notin> set (c_str s)"
  by (auto simp: c_str_def dest: set_takeWhileD)

lemma indir_entry_spec:
  assumes "NUL \<notin> set dir" "NUL \<notin> set dprefix" "NUL \<notin> set name"
  shows "indir_entry fs add base dsep name (dir, dprefix, w) =
     (if is_match base name then
        (case propose_all add [proposed_text fs dir dprefix dsep name] w of
           (cont, w') \<Rightarrow> (cont, dir, dprefix, w'))
      else (True, dir, dprefix, w))"
proof (cases "is_match base name")
  case False
  then show ?thesis by (auto simp: indir_entry_def is_match_def)
next
  case True
  have probe: "dsep \<noteq> NUL \<Longrightarrow> c_str (dir @ [dsep] @ name) = dir @ [dsep] @ name"
    using assms by (simp add: c_str_id)
  have cand: "c_str (proposed_text fs dir dprefix dsep name) = proposed_text fs dir dprefix dsep name"
    using assms by (simp add: c_str_id proposed_text_def)
  have cand2: "c_str (dprefix @ name) = dprefix @ name"
    using assms by (simp add: c_str_id)
  show ?thesis
    using True probe cand cand2
    by (auto simp: indir_entry_def is_match_def Let_def sbuf_len_def sbuf_append_def
          sbuf_append_char_def sbuf_string_def sbuf_delete_from_def rp_add_completion_def
          proposed_text_def split: prod.splits)
qed

lemma propose_all_append_one:
  "propose_all add (r # rs) w =
     (case propose_all add [r] w of (cont, w') \<Rightarrow> if cont then propose_all add rs w' else (cont, w'))"
  by (auto split: prod.splits)

lemma indir_loop_spec:
  assumes "NUL \<notin> set dir" "NUL \<notin> set dprefix" "\<forall>n \<in> set names. NUL \<notin> set n"
  shows "indir_loop fs add base dsep names (dir, dprefix, w) =
     (case propose_all add (map (proposed_text fs dir dprefix dsep) (filter (is_match base) names)) w of
        (cont, w') \<Rightarrow> (cont, dir, dprefix, w'))"
  using assms(3)
proof (induction names arbitrary: w)
  case Nil
  then show ?case by simp
next
  case (Cons name names)
  then have n: "NUL \<notin> set name" and ns: "\<forall>n \<in> set names. NUL \<notin> set n" by simp_all
  note e = indir_entry_spec[OF assms(1,2) n, of fs add base dsep w]
  show ?case
  proof (cases "is_match base name")
    case False
    with e Cons.IH[OF ns] show ?thesis by simp
  next
    case True
    obtain cont w1 where p1: "propose_all add [proposed_text fs dir dprefix dsep name] w = (cont, w1)"
      by (cases "propose_all add [proposed_text fs dir dprefix dsep name] w") auto
    with e True have e1: "indir_entry fs add base dsep name (dir, dprefix, w) = (cont, dir, dprefix, w1)"
      by simp
    have "propose_all add (proposed_text fs dir dprefix dsep name #
            map (proposed_text fs dir dprefix dsep) (filter (is_match base) names)) w
          = (if cont then propose_all add (map (proposed_text fs dir dprefix dsep) (filter (is_match base) names)) w1
             else (cont, w1))"
      using p1 propose_all_append_one[of add "proposed_text fs dir dprefix dsep name" _ w] by simp
    with True e1 Cons.IH[OF ns, of w1] show ?thesis
      by (simp split: prod.splits)
  qed
qed


lemma proposed_append: "proposed (xs @ ys) = proposed xs @ proposed ys"
  by (induction xs rule: proposed.induct) auto

lemma opened_append: "opened (xs @ ys) = opened xs @ opened ys"
  by (induction xs rule: opened.induct) auto

lemma propose_all_accepting:
  "\<forall>c e. fst (add c e) \<Longrightarrow> propose_all add rs w = (cont, w')
     \<Longrightarrow> cont \<and> proposed (trace w') = proposed (trace w) @ rs"
proof (induction rs arbitrary: w)
  case Nil
  then show ?case by auto
next
  case (Cons r rs)
  obtain ok e where a: "add \<lparr>display = None, replacement = r, delete_before = 0, delete_after = 0\<rparr>
             (env_state w) = (ok, e)"
    by (cases "add \<lparr>display = None, replacement = r, delete_before = 0, delete_after = 0\<rparr>
             (env_state w)") auto
  with Cons.prems(1) have ok by (metis fst_conv)
  with a Cons.prems(2)
  have "propose_all add rs (w\<lparr>env_state := e, trace := trace w @ [Proposed r ok]\<rparr>) = (cont, w')"
    by simp
  from Cons.IH[OF Cons.prems(1) this] show ?case by (simp add: proposed_append)
qed

text \<open>
  What \<open>filename_complete_indir\<close> does in a directory \<open>dir\<close> with the entries \<open>names\<close>
  (all C strings). The candidates are those of the entries that match \<open>base\<close> and are
  neither \<open>.\<close> nor \<open>..\<close>, in the order of the directory, each with the text
  \<open>dir_prefix + name\<close>, followed by \<open>dir_sep\<close> exactly when \<open>dir_sep\<close> is not NUL and
  \<open>os_is_dir\<close> holds of the probe path \<open>dir + dir_sep + name\<close>; they are proposed one by
  one until the sink answers false (\<open>propose_all\<close>), so a sink that accepts everything is
  proposed exactly one candidate for each matching entry. Both buffers are the same after
  the call as before it, and the directory is closed after the loop.
\<close>

lemma indir_proposals:
  assumes "NUL \<notin> set dir" and "NUL \<notin> set dprefix" and "\<forall>n \<in> set names. NUL \<notin> set n"
    and "dir_entries fs dir = Some names"
  shows "\<exists>cont w1 w2.
     propose_all add (map (proposed_text fs dir dprefix dsep) (filter (is_match base) names))
       (w\<lparr>trace := trace w @ [Opendir dir]\<rparr>) = (cont, w1) \<and>
     w2 = (if names = [] then w1 else w1\<lparr>trace := trace w1 @ [Closedir dir]\<rparr>) \<and>
     filename_complete_indir fs add (dir, dprefix, w) base dsep = (cont, dir, dprefix, w2) \<and>
     ((\<forall>c e. fst (add c e)) \<longrightarrow>
        proposed (trace w2) = proposed (trace w) @
          map (proposed_text fs dir dprefix dsep) (filter (is_match base) names))"
proof -
  let ?rs = "map (proposed_text fs dir dprefix dsep) (filter (is_match base) names)"
  let ?w0 = "w\<lparr>trace := trace w @ [Opendir dir]\<rparr>"
  obtain cont w1 where p: "propose_all add ?rs ?w0 = (cont, w1)"
    by (cases "propose_all add ?rs ?w0") auto
  define w2 where "w2 = (if names = [] then w1 else w1\<lparr>trace := trace w1 @ [Closedir dir]\<rparr>)"
  have loop: "indir_loop fs add base dsep names (dir, dprefix, ?w0) = (cont, dir, dprefix, w1)"
    using indir_loop_spec[OF assms(1,2,3), of fs add base dsep ?w0] p by simp
  have run: "filename_complete_indir fs add (dir, dprefix, w) base dsep = (cont, dir, dprefix, w2)"
  proof (cases names)
    case Nil
    with p have "cont" "w1 = ?w0" by simp_all
    with Nil assms(1,4) show ?thesis
      by (simp add: filename_complete_indir_def sbuf_string_def c_str_id log_event_def w2_def)
  next
    case (Cons n ns)
    with assms(1,4) loop show ?thesis
      by (simp add: filename_complete_indir_def sbuf_string_def c_str_id log_event_def w2_def)
  qed
  have acc: "proposed (trace w2) = proposed (trace w) @ ?rs" if "\<forall>c e. fst (add c e)"
    using propose_all_accepting[OF that p] by (simp add: w2_def proposed_append)
  from p run acc w2_def show ?thesis by blast
qed

text \<open>
  The scenario of claim C8: the directory \<open>./\<close> holds \<open>src\<close> and \<open>test\<close> (directories)
  and \<open>README.md\<close>; for the prefix \<open>sr\<close> and the separator \<open>/\<close> exactly one candidate is
  proposed, \<open>src/\<close>.
\<close>

lemma indir_proposals_scenario:
  "filename_complete_indir example_fs (\<lambda>c e. recording_sink True (Completion_fun 1) e (Addr 0) c)
     (''./'', [], empty_world) ''sr'' (CHR ''/'')
   = (True, ''./'', [],
      \<lparr>env_state = [\<lparr>display = None, replacement = ''src/'', delete_before = 0, delete_after = 0\<rparr>],
       trace = [Opendir ''./'', Proposed ''src/'' True, Closedir ''./'']\<rparr>) \<and>
   proposed [Opendir ''./'', Proposed ''src/'' True, Closedir ''./''] = [''src/'']"
proof -
  let ?add = "\<lambda>c e. recording_sink True (Completion_fun 1) e (Addr 0) c"
  let ?names = "[''.'', ''..'', ''src'', ''test'', ''README.md'']"
  have h1: "NUL \<notin> set ''./''" and h2: "NUL \<notin> set []"
    and h3: "\<forall>n \<in> set ?names. NUL \<notin> set n"
    and h4: "dir_entries example_fs ''./'' = Some ?names"
    by (simp_all add: NUL_def example_fs_def)
  have h5: "\<forall>c e. fst (?add c e)" by (simp add: recording_sink_def)
  have ev: "propose_all ?add (map (proposed_text example_fs ''./'' [] (CHR ''/''))
              (filter (is_match ''sr'') ?names)) (empty_world\<lparr>trace := trace empty_world @ [Opendir ''./'']\<rparr>)
        = (True, \<lparr>env_state = [\<lparr>display = None, replacement = ''src/'', delete_before = 0, delete_after = 0\<rparr>],
                  trace = [Opendir ''./'', Proposed ''src/'' True]\<rparr>)"
    by code_simp
  from indir_proposals[OF h1 h2 h3 h4, of ?add "CHR ''/''" "''sr''" empty_world] ev h5
  show ?thesis by (auto simp: empty_world_def)
qed

text \<open>
  The text proposed for an entry is the candidate of the spec when the separator is the
  slash (or none) and the \<open>S_IFDIR\<close> bit of the entry's mode is set for a directory only.
\<close>

lemma S_ISDIR_bit: "m AND S_IFMT = S_IFDIR \<Longrightarrow> m AND S_IFDIR \<noteq> 0"
proof -
  assume a: "m AND S_IFMT = S_IFDIR"
  have "m AND S_IFDIR = (m AND S_IFMT) AND S_IFDIR"
    by (simp add: S_IFMT_def S_IFDIR_def and.assoc)
  with a show ?thesis by (simp add: S_IFDIR_def)
qed

lemma proposed_text_is_candidate_text:
  assumes "dsep = NUL \<or> dsep = CHR ''/''"
    and "\<And>m. stat fs (dir @ ''/'' @ name) = Some m \<Longrightarrow> m AND S_IFDIR \<noteq> 0
           \<Longrightarrow> m AND S_IFMT = S_IFDIR"
  shows "proposed_text fs dir dprefix dsep name = candidate_text fs dir dprefix dsep name"
proof (cases "dsep = NUL")
  case True
  then show ?thesis by (simp add: proposed_text_def candidate_text_def)
next
  case False
  with assms(1) have d: "dsep = CHR ''/''" by simp
  have "os_is_dir fs (dir @ ''/'' @ name) = entry_is_directory fs dir name"
    using assms(2) S_ISDIR_bit
    by (auto simp: os_is_dir_def entry_is_directory_def Let_def split: option.splits)
  with d show ?thesis by (simp add: proposed_text_def candidate_text_def)
qed

text \<open>
  Claim C8, at two failing inputs. The directory \<open>/dev/\<close> holds the block device \<open>sda\<close>,
  which is not a directory; its mode 060660 has the bit \<open>S_IFDIR\<close> (040000) set, so
  \<open>os_is_dir\<close> answers true, and the candidate for \<open>sd\<close> is \<open>/dev/sda/\<close> where the claim
  has \<open>/dev/sda\<close>. And with the backslash as the separator the entry \<open>src\<close> of \<open>./\<close>, a
  directory, is probed under the path \<open>./\<close>, backslash, \<open>src\<close>, which names no file: the
  candidate for \<open>sr\<close> is \<open>src\<close> where the claim has \<open>src\<close> and the separator.
\<close>

theorem separator_not_by_directory:
  "\<not> entry_is_directory example_fs ''/dev/'' ''sda'' \<and>
   os_is_dir example_fs ''/dev//sda'' \<and>
   candidate_text example_fs ''/dev/'' ''/dev/'' (CHR ''/'') ''sda'' = ''/dev/sda'' \<and>
   filename_complete_indir example_fs (\<lambda>c e. recording_sink True (Completion_fun 1) e (Addr 0) c)
       (''/dev/'', ''/dev/'', empty_world) ''sd'' (CHR ''/'')
     = (True, ''/dev/'', ''/dev/'',
        \<lparr>env_state = [\<lparr>display = None, replacement = ''/dev/sda/'',
                        delete_before = 0, delete_after = 0\<rparr>],
         trace = [Opendir ''/dev/'', Proposed ''/dev/sda/'' True, Closedir ''/dev/'']\<rparr>) \<and>
   trace_of (rp_complete_filename (recording_sink True) example_fs all_ok top_cenv ''/dev/sd''
               (CHR ''/'') None empty_world)
     = [Opendir ''/dev/'', Proposed ''/dev/sda/'' True, Closedir ''/dev/''] \<and>
   entry_is_directory example_fs ''./'' ''src'' \<and>
   \<not> os_is_dir example_fs (''./'' @ [CHR 0x5C] @ ''src'') \<and>
   candidate_text example_fs ''./'' [] (CHR 0x5C) ''src'' = ''src'' @ [CHR 0x5C] \<and>
   filename_complete_indir example_fs (\<lambda>c e. recording_sink True (Completion_fun 1) e (Addr 0) c)
       (''./'', [], empty_world) ''sr'' (CHR 0x5C)
     = (True, ''./'', [],
        \<lparr>env_state = [\<lparr>display = None, replacement = ''src'',
                        delete_before = 0, delete_after = 0\<rparr>],
         trace = [Opendir ''./'', Proposed ''src'' True, Closedir ''./'']\<rparr>)"
  by code_simp

section \<open>Absolute paths and the roots\<close>

text \<open>
  \<open>filename_complete_indir\<close> opens the directory named by its buffer \<open>dir\<close> and no
  other.
\<close>

lemma indir_entry_opened:
  "indir_entry fs add base dsep name (dir, dprefix, w) = (cont, dir', dprefix', w')
     \<Longrightarrow> opened (trace w') = opened (trace w)"
  by (auto simp: indir_entry_def Let_def opened_append split: if_splits prod.splits)

lemma indir_loop_opened:
  "indir_loop fs add base dsep names (dir, dprefix, w) = (cont, dir', dprefix', w')
     \<Longrightarrow> opened (trace w') = opened (trace w)"
proof (induction names arbitrary: dir dprefix w)
  case Nil
  then show ?case by simp
next
  case (Cons name names)
  obtain c1 d1 p1 w1 where e: "indir_entry fs add base dsep name (dir, dprefix, w) = (c1, d1, p1, w1)"
    by (cases "indir_entry fs add base dsep name (dir, dprefix, w)") auto
  from indir_entry_opened[OF e] have o1: "opened (trace w1) = opened (trace w)" .
  show ?case
  proof (cases c1)
    case True
    with e Cons.prems have "indir_loop fs add base dsep names (d1, p1, w1) = (cont, dir', dprefix', w')"
      by simp
    from Cons.IH[OF this] o1 show ?thesis by simp
  next
    case False
    with e Cons.prems o1 show ?thesis by simp
  qed
qed

lemma filename_complete_indir_opened:
  "filename_complete_indir fs add (dir, dprefix, w) base dsep = (cont, dir', dprefix', w')
     \<Longrightarrow> opened (trace w') = opened (trace w) @ [sbuf_string dir]"
proof -
  assume a: "filename_complete_indir fs add (dir, dprefix, w) base dsep = (cont, dir', dprefix', w')"
  let ?w0 = "w\<lparr>trace := trace w @ [Opendir (sbuf_string dir)]\<rparr>"
  show ?thesis
  proof (cases "dir_entries fs (sbuf_string dir)")
    case None
    with a show ?thesis
      by (auto simp: filename_complete_indir_def log_event_def opened_append)
  next
    case (Some names)
    show ?thesis
    proof (cases names)
      case Nil
      with a Some show ?thesis
        by (auto simp: filename_complete_indir_def log_event_def opened_append)
    next
      case (Cons n ns)
      obtain c1 d1 p1 w1 where l: "indir_loop fs add base dsep (n # ns) (dir, dprefix, ?w0) = (c1, d1, p1, w1)"
        by (cases "indir_loop fs add base dsep (n # ns) (dir, dprefix, ?w0)") auto
      from indir_loop_opened[OF l] have "opened (trace w1) = opened (trace w) @ [sbuf_string dir]"
        by (simp add: opened_append)
      with a Some Cons l show ?thesis
        by (auto simp: filename_complete_indir_def log_event_def opened_append)
    qed
  qed
qed

lemma absolute_has_slash:
  "os_path_is_absolute path \<Longrightarrow> \<exists>i. strrchr path (CHR ''/'') = Some i"
  by (cases path) (auto simp: os_path_is_absolute_def char_at_def NUL_def split: option.splits)

lemma take_no_NUL: "NUL \<notin> set s \<Longrightarrow> NUL \<notin> set (take n s)"
  by (auto dest: in_set_takeD)

lemma filename_completer_absolute:
  assumes "os_path_is_absolute word" "NUL \<notin> set word" "root_dir_ok mem" "dir_prefix_ok mem"
  shows "opened (trace (filename_completer fs mem fclosure add cenv word w))
           = opened (trace w) @ [dir_part word] \<and>
         filename_completer fs mem fclosure add cenv word w
           = filename_completer fs mem (fclosure\<lparr>roots := r\<rparr>) add cenv word w"
proof -
  from absolute_has_slash[OF assms(1)] obtain i where i: "strrchr word (CHR ''/'') = Some i" by blast
  let ?res = "filename_complete_indir fs add (take (Suc i) word, take (Suc i) word, w) (drop (Suc i) word) (dir_sep fclosure)"
  obtain c d p w' where r: "?res = (c, d, p, w')" by (cases ?res) auto
  have fc: "filename_completer fs mem fclosure add cenv word w = w'"
    using assms i r by (simp add: filename_completer_def sbuf_append_n_def)
  have fc2: "filename_completer fs mem (fclosure\<lparr>roots := r\<rparr>) add cenv word w = w'" for r
    using assms i r by (simp add: filename_completer_def sbuf_append_n_def)
  have "sbuf_string (take (Suc i) word) = take (Suc i) word"
    using assms(2) by (simp add: sbuf_string_def c_str_id take_no_NUL)
  with filename_complete_indir_opened[OF r] have "opened (trace w') = opened (trace w) @ [take (Suc i) word]"
    by simp
  with fc fc2 i show ?thesis by (simp add: dir_part_def)
qed


lemma unescaped_word_no_NUL: "NUL \<notin> set (unescaped_word prefix nwc esc q pos)"
  by (simp add: unescaped_word_def Let_def c_str_no_NUL)

text \<open>
  Claim C7 as the code has it. The claim speaks of the prefix given to
  \<open>rp_complete_filename\<close>; the code tests the word that \<open>rp_complete_quoted_word\<close> cuts
  out of the prefix and unescapes. Whenever that word is an absolute path, exactly one
  directory is opened, the directory portion of the word, and the result of the call is
  the same for every \<open>roots\<close> argument.
\<close>

theorem absolute_word_ignores_roots:
  assumes "word_boundary prefix filename_non_word_chars (CHR 0x5C) [CHR 0x27, CHR 0x22] = Inr (q, pos)"
    and "pos \<noteq> length prefix"
    and "word = unescaped_word prefix filename_non_word_chars (CHR 0x5C) q pos"
    and "os_path_is_absolute word"
    and "word_ok mem" and "sbuf_ok mem" and "root_dir_ok mem" and "dir_prefix_ok mem"
  shows "\<exists>cenv' w'.
           rp_complete_filename call fs mem cenv prefix dsep roots_arg w = Inr (cenv', w', [word]) \<and>
           opened (trace w') = opened (trace w) @ [dir_part word] \<and>
           (\<forall>r. rp_complete_filename call fs mem cenv prefix dsep r w
                  = rp_complete_filename call fs mem cenv prefix dsep roots_arg w)"
proof -
  have nn: "NUL \<notin> set word" using assms(3) by (simp add: unescaped_word_no_NUL)
  define cenv1 where "cenv1 = cenv\<lparr>arg := Fclosure_ptr, complete := Word_add_completion_ex, closure := Wenv_ptr\<rparr>"
  define wenv where "wenv = make_wenv (cenv\<lparr>arg := Fclosure_ptr\<rparr>) filename_non_word_chars (CHR 0x5C) q (length prefix) pos"
  define sink where "sink = (\<lambda>c e. word_add_completion_ex call wenv e (closure cenv1) c)"
  define cenv2 where "cenv2 = cenv1\<lparr>complete := prev_complete wenv, closure := prev_env wenv\<rparr>"
  have run: "rp_complete_filename call fs mem cenv prefix dsep r w
          = Inr (cenv2,
                 filename_completer fs mem \<lparr>roots = (case r of None \<Rightarrow> ''.'' | Some x \<Rightarrow> x), dir_sep = dsep\<rparr>
                   sink cenv1 word w, [word])" for r
    using assms(1,2,5,6)
    by (simp add: rp_complete_filename_def rp_complete_quoted_word_def Let_def assms(3)
          cenv1_def wenv_def sink_def cenv2_def)
  have indep: "filename_completer fs mem \<lparr>roots = x, dir_sep = dsep\<rparr> sink cenv1 word w
             = filename_completer fs mem \<lparr>roots = y, dir_sep = dsep\<rparr> sink cenv1 word w" for x y
    using filename_completer_absolute[OF assms(4) nn assms(7,8), of fs "\<lparr>roots = x, dir_sep = dsep\<rparr>" sink cenv1 w y]
    by simp
  have op: "opened (trace (filename_completer fs mem \<lparr>roots = x, dir_sep = dsep\<rparr> sink cenv1 word w))
              = opened (trace w) @ [dir_part word]" for x
    using filename_completer_absolute[OF assms(4) nn assms(7,8), of fs "\<lparr>roots = x, dir_sep = dsep\<rparr>" sink cenv1 w x]
    by simp
  have same: "rp_complete_filename call fs mem cenv prefix dsep r w
                  = rp_complete_filename call fs mem cenv prefix dsep roots_arg w" for r
    unfolding run using indep by simp
  from run[of roots_arg] op same show ?thesis by simp
qed

theorem absolute_word_ignores_roots_witness:
  "word_boundary ''cat /etc/pa'' filename_non_word_chars (CHR 0x5C) [CHR 0x27, CHR 0x22] = Inr (NUL, 4) \<and>
   unescaped_word ''cat /etc/pa'' filename_non_word_chars (CHR 0x5C) NUL 4 = ''/etc/pa'' \<and>
   os_path_is_absolute ''/etc/pa'' \<and>
   opened (trace_of (rp_complete_filename (recording_sink True) example_fs all_ok top_cenv
                       ''cat /etc/pa'' (CHR ''/'') (Some ''.;/usr'') empty_world)) = [''/etc/'']"
proof -
  have h1: "word_boundary ''cat /etc/pa'' filename_non_word_chars (CHR 0x5C) [CHR 0x27, CHR 0x22] = Inr (NUL, 4)"
    by code_simp
  have h2: "4 \<noteq> length ''cat /etc/pa''" by simp
  have h3: "''/etc/pa'' = unescaped_word ''cat /etc/pa'' filename_non_word_chars (CHR 0x5C) NUL 4"
    by code_simp
  have h4: "os_path_is_absolute ''/etc/pa''" by code_simp
  have m: "word_ok all_ok" "sbuf_ok all_ok" "root_dir_ok all_ok" "dir_prefix_ok all_ok"
    by (simp_all add: all_ok_def)
  have d: "dir_part ''/etc/pa'' = ''/etc/''" by code_simp
  from absolute_word_ignores_roots[OF h1 h2 h3 h4 m, of "recording_sink True" example_fs top_cenv
      "CHR ''/''" "Some ''.;/usr''" empty_world]
  obtain cenv' w' where
    r: "rp_complete_filename (recording_sink True) example_fs all_ok top_cenv ''cat /etc/pa''
          (CHR ''/'') (Some ''.;/usr'') empty_world = Inr (cenv', w', [''/etc/pa''])"
    and o: "opened (trace w') = opened (trace empty_world) @ [dir_part ''/etc/pa'']"
    by blast
  from o d have "opened (trace w') = [''/etc/'']" by (simp add: empty_world_def)
  with r have "opened (trace_of (rp_complete_filename (recording_sink True) example_fs all_ok top_cenv
                       ''cat /etc/pa'' (CHR ''/'') (Some ''.;/usr'') empty_world)) = [''/etc/'']"
    by (simp add: trace_of_def)
  with h1 h3 h4 show ?thesis by simp
qed

text \<open>
  The claim as stated fails: the prefix \<open>/bin/ls s\<close> starts with a slash, but the word
  to complete is \<open>s\<close>, a relative path, and both roots of \<open>.;/usr\<close> are opened.
\<close>

theorem absolute_prefix_counterexample:
  "os_path_is_absolute ''/bin/ls s'' \<and>
   trace_of (rp_complete_filename (recording_sink True) example_fs all_ok top_cenv ''/bin/ls s''
               (CHR ''/'') (Some ''.;/usr'') empty_world)
     = [Opendir ''./'', Proposed ''src/'' True, Closedir ''./'',
        Opendir ''/usr/'', Proposed ''share/'' True, Proposed ''sbin/'' True, Closedir ''/usr/'']"
  by code_simp

section \<open>The call as a whole\<close>

text \<open>The scan always yields a word start: the assertion of step 1 never fails.\<close>

lemma find_quote_total: "\<exists>q p. find_quote s qs esc = Inr (q, p)"
proof (cases "quote_loop s qs esc 0 None 0")
  case (Pair qp qc)
  from quote_loop_inv[OF _ Pair] have "odd qc \<longrightarrow> qp \<noteq> None" by simp
  with Pair show ?thesis
    by (auto simp: find_quote_def odd_iff_mod_2_eq_one)
qed

lemma word_boundary_total: "\<exists>q p. word_boundary s nwc esc qs = Inr (q, p)"
  using find_quote_total[of s qs esc] by (auto simp: word_boundary_def)

text \<open>The word start lies within the prefix.\<close>

lemma quote_loop_bound:
  "(\<forall>q. qpos = Some q \<longrightarrow> q < length s) \<Longrightarrow> quote_loop s qs esc pos qpos qcount = (qp, qc)
     \<Longrightarrow> \<forall>q. qp = Some q \<longrightarrow> q < length s"
proof (induction s qs esc pos qpos qcount rule: quote_loop.induct)
  case (1 s qs esc pos qpos qcount)
  show ?case
  proof (cases "pos < length s")
    case False
    with "1.prems" show ?thesis by (simp add: quote_loop.simps)
  next
    case True
    obtain pos1 qpos1 qcount1 where st: "quote_step s qs esc pos qpos qcount = (pos1, qpos1, qcount1)"
      by (cases "quote_step s qs esc pos qpos qcount") auto
    have inv1: "\<forall>q. qpos1 = Some q \<longrightarrow> q < length s"
      using st "1.prems"(1) True by (auto simp: quote_step_def split: if_splits)
    show ?thesis
    proof (cases "str_next_ofs s (length s) pos1 \<le> 0")
      case True
      with \<open>pos < length s\<close> st "1.prems"(2) inv1 show ?thesis
        by (simp add: quote_loop.simps[of s qs esc pos])
    next
      case False
      with \<open>pos < length s\<close> st "1.prems"(2)
      have "quote_loop s qs esc (pos1 + str_next_ofs s (length s) pos1) qpos1 qcount1 = (qp, qc)"
        by (simp add: quote_loop.simps[of s qs esc pos])
      with "1.IH"[OF \<open>pos < length s\<close> st[symmetric] refl refl False inv1] show ?thesis by simp
    qed
  qed
qed

lemma word_loop_le: "word_loop s nwc esc pos \<le> pos"
proof (induction s nwc esc pos rule: word_loop.induct)
  case (1 s nwc esc pos)
  show ?case
  proof (cases "0 < pos")
    case False
    then show ?thesis by (simp add: word_loop.simps)
  next
    case True
    define ofs where "ofs = str_prev_ofs s pos"
    define stop where "stop = (strchr nwc (char_at s (pos - ofs)) \<noteq> None
                 \<and> (pos \<le> ofs \<or> char_at s (pos - ofs - 1) \<noteq> esc))"
    have unfold: "word_loop s nwc esc pos =
        (if ofs \<le> 0 then pos else if stop then pos else word_loop s nwc esc (pos - ofs))"
      using True unfolding ofs_def stop_def
      by (subst word_loop.simps) (simp only: Let_def if_True)
    show ?thesis
    proof (cases "ofs \<le> 0 \<or> stop")
      case True
      with unfold show ?thesis by auto
    next
      case False
      then have a: "\<not> ofs \<le> 0" and b: "\<not> stop" by simp_all
      have "word_loop s nwc esc (pos - ofs) \<le> pos - ofs"
        using \<open>0 < pos\<close> a b unfolding ofs_def stop_def by (intro "1.IH"[OF _ refl]) simp_all
      with unfold a b show ?thesis by simp
    qed
  qed
qed

lemma word_boundary_le:
  assumes "word_boundary s nwc esc qs = Inr (q, pos)"
  shows "pos \<le> length s"
proof (cases "quote_loop s qs esc 0 None 0")
  case (Pair qp qc)
  from quote_loop_bound[OF _ Pair] have b: "\<forall>x. qp = Some x \<longrightarrow> x < length s" by simp
  from assms Pair b word_loop_le[of s nwc esc "length s"] show ?thesis
    by (auto simp: word_boundary_def find_quote_def split: if_splits option.splits)
qed

text \<open>
  Claim C9. Every call returns (no assertion fails) and invokes the user routine at most
  once. When the word start equals the length of the prefix, or the duplicate of the word
  or the scratch buffer cannot be allocated, the routine is not invoked, and the world (in
  it the stored candidates) and the completion environment are what they were; otherwise
  the routine is invoked exactly once, with the unescaped word, and the world after the
  call is the one it leaves.
\<close>

theorem abort_is_silent:
  "\<exists>q pos cenv' w' words.
     word_boundary prefix (case nwc_arg of None \<Rightarrow> default_non_word_chars | Some s \<Rightarrow> s) esc
       (case quote_arg of None \<Rightarrow> default_quote_chars | Some s \<Rightarrow> s) = Inr (q, pos) \<and>
     rp_complete_quoted_word call mem cenv prefix completer nwc_arg esc quote_arg w
       = Inr (cenv', w', words) \<and>
     length words \<le> 1 \<and>
     (pos = length prefix \<or> \<not> word_ok mem \<or> \<not> sbuf_ok mem
        \<longrightarrow> words = [] \<and> w' = w \<and> cenv' = cenv) \<and>
     (pos \<noteq> length prefix \<and> word_ok mem \<and> sbuf_ok mem \<longrightarrow>
        length words = 1 \<and>
        words = [unescaped_word prefix
                   (case nwc_arg of None \<Rightarrow> default_non_word_chars | Some s \<Rightarrow> s) esc q pos] \<and>
        w' = completer
               (\<lambda>c e. word_add_completion_ex call
                         (make_wenv cenv
                            (case nwc_arg of None \<Rightarrow> default_non_word_chars | Some s \<Rightarrow> s)
                            esc q (length prefix) pos) e Wenv_ptr c)
               (cenv\<lparr>complete := Word_add_completion_ex, closure := Wenv_ptr\<rparr>)
               (unescaped_word prefix
                  (case nwc_arg of None \<Rightarrow> default_non_word_chars | Some s \<Rightarrow> s) esc q pos)
               w)"
proof -
  obtain q pos where wb:
    "word_boundary prefix (case nwc_arg of None \<Rightarrow> default_non_word_chars | Some s \<Rightarrow> s) esc
       (case quote_arg of None \<Rightarrow> default_quote_chars | Some s \<Rightarrow> s) = Inr (q, pos)"
    using word_boundary_total by blast
  then show ?thesis
    by (auto simp: rp_complete_quoted_word_def Let_def)
qed

text \<open>
  The prefix \<open>ab \<close> ends in a separator, so the word is empty; and for the prefix \<open>ab\<close>
  the scratch buffer is not allocated. In both cases nothing is stored.
\<close>

theorem abort_is_silent_witness:
  "rp_complete_quoted_word (recording_sink True) all_ok top_cenv ''ab ''
       (user_completer (\<lambda>word. he_world)) None (CHR 0x5C) None empty_world
     = Inr (top_cenv, empty_world, []) \<and>
   rp_complete_quoted_word (recording_sink True) (all_ok\<lparr>sbuf_ok := False\<rparr>) top_cenv ''ab''
       (user_completer (\<lambda>word. he_world)) None (CHR 0x5C) None empty_world
     = Inr (top_cenv, empty_world, [])"
proof -
  have wb: "word_boundary ''ab '' default_non_word_chars (CHR 0x5C) default_quote_chars = Inr (NUL, 3)"
    by code_simp
  have a: "rp_complete_quoted_word (recording_sink True) all_ok top_cenv ''ab ''
       (user_completer (\<lambda>word. he_world)) None (CHR 0x5C) None empty_world
     = Inr (top_cenv, empty_world, [])"
    using abort_is_silent[of "''ab ''" None "CHR 0x5C" None "recording_sink True" all_ok top_cenv
        "user_completer (\<lambda>word. he_world)" empty_world] wb
    by auto
  have b: "rp_complete_quoted_word (recording_sink True) (all_ok\<lparr>sbuf_ok := False\<rparr>) top_cenv ''ab''
       (user_completer (\<lambda>word. he_world)) None (CHR 0x5C) None empty_world
     = Inr (top_cenv, empty_world, [])"
    using abort_is_silent[of "''ab''" None "CHR 0x5C" None "recording_sink True"
        "all_ok\<lparr>sbuf_ok := False\<rparr>" top_cenv "user_completer (\<lambda>word. he_world)" empty_world]
    by auto
  from a b show ?thesis by simp
qed

text \<open>
  What a call that reaches the user routine leaves in the completion environment: the
  completion function is the one from before the call, and the closure is the environment
  pointer, whatever the closure was before (line 147 saves \<open>cenv->env\<close>, line 158 stores
  it in \<open>cenv->closure\<close>).
\<close>

lemma sink_after_call:
  assumes "rp_complete_quoted_word call mem cenv prefix completer nwc_arg esc quote_arg w
             = Inr (cenv', w', [word])"
  shows "cenv' = cenv\<lparr>closure := Addr (env cenv)\<rparr>"
  using assms
  by (auto simp: rp_complete_quoted_word_def Let_def make_wenv_def
           split: sum.splits prod.splits if_splits)

text \<open>
  Claim C5, at two failing inputs. First the environment holds no closure (\<open>NULL\<close>)
  before the call. Second the call is made by a user routine that itself runs under
  \<open>rp_complete_quoted_word\<close>, so that the active sink is \<open>word_add_completion_ex\<close> with
  the closure of the outer call. After a call that reaches the user routine the completion
  function is the one from before, but the closure is the environment pointer \<open>1000\<close>.
\<close>

theorem closure_not_restored:
  "closure top_cenv = Addr 0 \<and> env top_cenv = 1000 \<and>
   cenv_of (rp_complete_quoted_word (recording_sink True) all_ok top_cenv ''ab''
              (user_completer (\<lambda>word. Done)) None (CHR 0x5C) None empty_world)
     = Some (top_cenv\<lparr>closure := Addr 1000\<rparr>) \<and>
   cenv_of (rp_complete_quoted_word (recording_sink True) all_ok
              (top_cenv\<lparr>complete := Word_add_completion_ex, closure := Wenv_ptr\<rparr>) ''ab''
              (user_completer (\<lambda>word. Done)) None (CHR 0x5C) None empty_world)
     = Some (top_cenv\<lparr>complete := Word_add_completion_ex, closure := Addr 1000\<rparr>)"
  by code_simp

text \<open>
  Reading the sum of two \<open>long\<close> values as a number: it is the sum of the numbers unless
  that exceeds \<open>LONG_MAX\<close> (the second summand is not negative here).
\<close>

lemma long_sum:
  assumes "0 \<le> n" and "sint a + n \<le> LONG_MAX"
  shows "sint (word_of_int n + a :: long) = sint a + n"
proof -
  have lo: "- (2 ^ 63) \<le> sint a" using sint_ge[of a] by simp
  have e: "word_of_int n + a = (word_of_int (sint a + n) :: long)" by simp
  have "sint (word_of_int (sint a + n) :: long) = signed_take_bit 63 (sint a + n)"
    by (simp only: sint_sbintrunc') simp
  also have "\<dots> = sint a + n"
    using assms lo by (intro signed_take_bit_int_eq_self) (simp_all add: LONG_MAX_def)
  finally show ?thesis by (simp only: e)
qed

text \<open>
  The sink installed for a word that starts at \<open>pos\<close>: what it passes to the completion
  function that was active before.
\<close>

lemma sink_of_make_wenv:
  "word_add_completion_ex call (make_wenv cenv nwc esc q len pos) e clo c
      = call (complete cenv) e clo
          \<lparr>display = Some (case display c of Some d \<Rightarrow> d | None \<Rightarrow> replacement c),
           replacement = (if q \<noteq> NUL then c_str (replacement c @ [q])
                          else escape_word nwc esc (replacement c)),
           delete_before = word_of_int (int len - int pos) + delete_before c,
           delete_after = delete_after c\<rparr>"
  by (simp add: word_add_completion_ex_def make_wenv_def escape_word_def Let_def
        sbuf_string_def sbuf_append_char_def sbuf_replace_def)

text \<open>
  Claim C3 as the code has it. Let the word of \<open>prefix\<close> start at \<open>pos\<close>, with the open
  quote \<open>q\<close> (NUL for none), and let \<open>rp_complete_quoted_word\<close> reach the user routine.
  The sink that the routine is given passes every candidate on to the completion
  function that was active before the call, with the display text given, or the
  replacement as it was proposed when none is given; with the closing quote appended to
  the replacement of a quoted word and the separators of an unquoted one escaped; with
  \<open>delete_before\<close> raised by \<open>len - pos\<close>, the byte length of the word as typed, in
  \<open>long\<close> arithmetic; and with \<open>delete_after\<close> as given. The \<open>delete_before\<close> passed on is
  the given one plus \<open>len - pos\<close> whenever that number does not exceed \<open>LONG_MAX\<close>. For
  the prefix \<open>he\<close>, backslash, \<open> wor\<close> the word is the whole prefix (7 bytes), and the
  proposal \<open>he world\<close> goes on as \<open>he\<close>, backslash, \<open> world\<close> with \<open>delete_before = 7\<close>.
\<close>

theorem forwarded_candidate:
  assumes "word_boundary prefix (case nwc_arg of None \<Rightarrow> default_non_word_chars | Some s \<Rightarrow> s) esc
             (case quote_arg of None \<Rightarrow> default_quote_chars | Some s \<Rightarrow> s) = Inr (q, pos)"
    and "pos \<noteq> length prefix" and "word_ok mem" and "sbuf_ok mem"
    and "nwc = (case nwc_arg of None \<Rightarrow> default_non_word_chars | Some s \<Rightarrow> s)"
  shows "rp_complete_quoted_word call mem cenv prefix completer nwc_arg esc quote_arg w
       = Inr (cenv\<lparr>closure := Addr (env cenv)\<rparr>,
              completer
                (\<lambda>c e. call (complete cenv) e Wenv_ptr
                   \<lparr>display = Some (case display c of Some d \<Rightarrow> d | None \<Rightarrow> replacement c),
                    replacement = (if q \<noteq> NUL then c_str (replacement c @ [q])
                                   else escape_word nwc esc (replacement c)),
                    delete_before = word_of_int (int (length prefix) - int pos) + delete_before c,
                    delete_after = delete_after c\<rparr>)
                (cenv\<lparr>complete := Word_add_completion_ex, closure := Wenv_ptr\<rparr>)
                (unescaped_word prefix nwc esc q pos) w,
              [unescaped_word prefix nwc esc q pos]) \<and>
     pos < length prefix \<and>
     (\<forall>a. sint a + (int (length prefix) - int pos) \<le> LONG_MAX \<longrightarrow>
          sint (word_of_int (int (length prefix) - int pos) + a :: long)
            = sint a + (int (length prefix) - int pos)) \<and>
     word_boundary (''he'' @ [CHR 0x5C] @ '' wor'') default_non_word_chars (CHR 0x5C)
       default_quote_chars = Inr (NUL, 0) \<and>
     length (''he'' @ [CHR 0x5C] @ '' wor'') = 7 \<and>
     state_of (rp_complete_quoted_word (recording_sink True) all_ok top_cenv
                 (''he'' @ [CHR 0x5C] @ '' wor'') (user_completer (\<lambda>word. he_world))
                 (Some default_non_word_chars) (CHR 0x5C) None empty_world)
       = Some [\<lparr>display = Some ''he world'', replacement = ''he'' @ [CHR 0x5C] @ '' world'',
                delete_before = 7, delete_after = 0\<rparr>]"
proof -
  have le: "pos \<le> length prefix" using assms(1) by (rule word_boundary_le)
  with assms(2) have lt: "pos < length prefix" by simp
  have run: "rp_complete_quoted_word call mem cenv prefix completer nwc_arg esc quote_arg w
       = Inr (cenv\<lparr>closure := Addr (env cenv)\<rparr>,
              completer
                (\<lambda>c e. call (complete cenv) e Wenv_ptr
                   \<lparr>display = Some (case display c of Some d \<Rightarrow> d | None \<Rightarrow> replacement c),
                    replacement = (if q \<noteq> NUL then c_str (replacement c @ [q])
                                   else escape_word nwc esc (replacement c)),
                    delete_before = word_of_int (int (length prefix) - int pos) + delete_before c,
                    delete_after = delete_after c\<rparr>)
                (cenv\<lparr>complete := Word_add_completion_ex, closure := Wenv_ptr\<rparr>)
                (unescaped_word prefix nwc esc q pos) w,
              [unescaped_word prefix nwc esc q pos])"
    using assms(1,2,3,4) unfolding assms(5)
    by (simp add: rp_complete_quoted_word_def Let_def sink_of_make_wenv)
      (simp add: make_wenv_def)
  have sum: "sint (word_of_int (int (length prefix) - int pos) + a :: long)
            = sint a + (int (length prefix) - int pos)"
    if "sint a + (int (length prefix) - int pos) \<le> LONG_MAX" for a
    using le that by (intro long_sum) simp_all
  have scan: "word_boundary (''he'' @ [CHR 0x5C] @ '' wor'') default_non_word_chars (CHR 0x5C)
     default_quote_chars = Inr (NUL, 0)"
    by code_simp
  have scenario: "state_of (rp_complete_quoted_word (recording_sink True) all_ok top_cenv
               (''he'' @ [CHR 0x5C] @ '' wor'') (user_completer (\<lambda>word. he_world))
               (Some default_non_word_chars) (CHR 0x5C) None empty_world)
     = Some [\<lparr>display = Some ''he world'', replacement = ''he'' @ [CHR 0x5C] @ '' world'',
              delete_before = 7, delete_after = 0\<rparr>]"
    by code_simp
  from run lt sum scan scenario show ?thesis by simp
qed

text \<open>
  Two calls. For the prefix \<open>ls he\<close> the word \<open>he\<close> starts at offset 3: the proposal
  \<open>hello world\<close>, made without a display text and with nothing to delete, goes on with
  its separator escaped, the display text \<open>hello world\<close> and \<open>delete_before = 2\<close>. For the
  prefix \<open>"foo\<close> the word starts at offset 1 inside a quote: the proposal \<open>foo bar\<close> with
  the display text \<open>Foo Bar\<close>, \<open>delete_before = 2\<close> and \<open>delete_after = 3\<close> goes on with
  the closing quote, the same display text, \<open>delete_before = 5\<close> and \<open>delete_after = 3\<close>.
\<close>

theorem forwarded_candidate_witness:
  "word_boundary ''ls he'' default_non_word_chars (CHR 0x5C) default_quote_chars = Inr (NUL, 3) \<and>
   state_of (rp_complete_quoted_word (recording_sink True) all_ok top_cenv ''ls he''
               (user_completer (\<lambda>word. hello_world)) None (CHR 0x5C) None empty_world)
     = Some [\<lparr>display = Some ''hello world'', replacement = ''hello'' @ [CHR 0x5C] @ '' world'',
              delete_before = 2, delete_after = 0\<rparr>] \<and>
   word_boundary (CHR 0x22 # ''foo'') default_non_word_chars (CHR 0x5C) default_quote_chars
     = Inr (CHR 0x22, 1) \<and>
   state_of (rp_complete_quoted_word (recording_sink True) all_ok top_cenv (CHR 0x22 # ''foo'')
               (user_completer (\<lambda>word. foo_bar)) None (CHR 0x5C) None empty_world)
     = Some [\<lparr>display = Some ''Foo Bar'', replacement = ''foo bar'' @ [CHR 0x22],
              delete_before = 5, delete_after = 3\<rparr>]"
proof -
  have wb1: "word_boundary ''ls he'' (case None of None \<Rightarrow> default_non_word_chars | Some s \<Rightarrow> s)
               (CHR 0x5C) (case None of None \<Rightarrow> default_quote_chars | Some s \<Rightarrow> s) = Inr (NUL, 3)"
    by code_simp
  have wb2: "word_boundary (CHR 0x22 # ''foo'')
               (case None of None \<Rightarrow> default_non_word_chars | Some s \<Rightarrow> s)
               (CHR 0x5C) (case None of None \<Rightarrow> default_quote_chars | Some s \<Rightarrow> s)
             = Inr (CHR 0x22, 1)"
    by code_simp
  have ne1: "3 \<noteq> length ''ls he''" and ne2: "1 \<noteq> length (CHR 0x22 # ''foo'')" by simp_all
  have ok: "word_ok all_ok" "sbuf_ok all_ok" by (simp_all add: all_ok_def)
  have esc: "escape_word default_non_word_chars (CHR 0x5C) ''hello world''
               = ''hello'' @ [CHR 0x5C] @ '' world''"
    by code_simp
  have q: "c_str (''foo bar'' @ [CHR 0x22]) = ''foo bar'' @ [CHR 0x22]" by code_simp
  note a = forwarded_candidate[OF wb1 ne1 ok refl, of "recording_sink True" top_cenv
      "user_completer (\<lambda>word. hello_world)" empty_world, THEN conjunct1]
  note b = forwarded_candidate[OF wb2 ne2 ok refl, of "recording_sink True" top_cenv
      "user_completer (\<lambda>word. foo_bar)" empty_world, THEN conjunct1]
  have r1: "state_of (rp_complete_quoted_word (recording_sink True) all_ok top_cenv ''ls he''
               (user_completer (\<lambda>word. hello_world)) None (CHR 0x5C) None empty_world)
     = Some [\<lparr>display = Some ''hello world'', replacement = ''hello'' @ [CHR 0x5C] @ '' world'',
              delete_before = 2, delete_after = 0\<rparr>]"
    unfolding a using esc
    by (simp add: state_of_def user_completer_def hello_world_def recording_sink_def
          empty_world_def NUL_def)
  have r2: "state_of (rp_complete_quoted_word (recording_sink True) all_ok top_cenv
               (CHR 0x22 # ''foo'') (user_completer (\<lambda>word. foo_bar)) None (CHR 0x5C) None
               empty_world)
     = Some [\<lparr>display = Some ''Foo Bar'', replacement = ''foo bar'' @ [CHR 0x22],
              delete_before = 5, delete_after = 3\<rparr>]"
    unfolding b using q
    by (simp add: state_of_def user_completer_def foo_bar_def recording_sink_def
          empty_world_def NUL_def)
  from wb1 wb2 r1 r2 show ?thesis by simp
qed

text \<open>
  The claim as stated fails where the sum does not fit: a candidate proposed with
  \<open>delete_before = LONG_MAX\<close> for the prefix \<open>he\<close>, backslash, \<open> wor\<close> (a word of 7
  bytes) goes on with a negative \<open>delete_before\<close>, not with \<open>LONG_MAX + 7\<close>.
\<close>

theorem delete_before_overflow:
  "sint (delete_before far_back) = LONG_MAX \<and>
   map_option (map (\<lambda>c. sint (delete_before c)))
     (state_of (rp_complete_quoted_word (recording_sink True) all_ok top_cenv
                  (''he'' @ [CHR 0x5C] @ '' wor'')
                  (user_completer (\<lambda>word. Propose far_back (\<lambda>ok. Done)))
                  (Some default_non_word_chars) (CHR 0x5C) None empty_world))
     = Some [- 9223372036854775802] \<and>
   LONG_MAX + 7 = 9223372036854775814"
  by code_simp

section \<open>Early stop and the roots\<close>

text \<open>
  Claim C4, at a failing input. Both roots of \<open>.;/usr\<close> hold an entry that starts with
  \<open>s\<close>, and the sink answers false to every candidate. The enumeration of \<open>./\<close> stops
  at once and the directory is closed, but the loop over the roots does not look at
  the result of \<open>filename_complete_indir\<close>: the next root is opened and a second candidate
  is proposed.
\<close>

theorem stop_ignored_between_roots:
  "trace_of (rp_complete_filename (recording_sink False) example_fs all_ok top_cenv ''s''
               (CHR ''/'') (Some ''.;/usr'') empty_world)
     = [Opendir ''./'', Proposed ''src/'' False, Closedir ''./'',
        Opendir ''/usr/'', Proposed ''share/'' False, Closedir ''/usr/'']"
  by code_simp

section \<open>The round trip of escaping\<close>

text \<open>
  The escaping loop inserts the escape character before separators only, and possibly
  not before all of them.
\<close>

inductive_cases escaped_NilE: "escaped nwc esc w []"
inductive_cases escaped_ConsE: "escaped nwc esc w (x # e)"

lemma escaped_refl: "escaped nwc esc w w"
  by (induction w) (auto intro: escaped.intros)

lemma escaped_append_same: "escaped nwc esc w e \<Longrightarrow> escaped nwc esc (a @ w) (a @ e)"
  by (induction a) (auto intro: escaped.intros)

lemma escaped_length: "escaped nwc esc w e \<Longrightarrow> length w \<le> length e"
  by (induction rule: escaped.induct) auto

lemma escaped_no_NUL:
  "escaped nwc esc w e \<Longrightarrow> esc \<noteq> NUL \<Longrightarrow> NUL \<notin> set w \<Longrightarrow> NUL \<notin> set e"
  by (induction rule: escaped.induct) auto

lemma takeWhile_append_stop:
  "ys = [] \<or> \<not> P (hd ys) \<Longrightarrow> takeWhile P (xs @ ys) = takeWhile P xs"
  by (induction xs) (auto simp: takeWhile_eq_Nil_iff neq_Nil_conv)

lemma sbuf_next_at:
  "sbuf_next (d @ x # r) (length d) = Some (length d + 1 + length (takeWhile is_follower r))"
  by (simp add: sbuf_next_def str_next_ofs_def Let_def)

lemma escape_loop_escaped:
  "NUL \<notin> set r \<Longrightarrow> len \<le> length d + length r \<Longrightarrow>
     \<exists>x. escape_loop (d @ r) nwc esc len (length d) = d @ x \<and> escaped nwc esc r x"
proof (induction "length r" arbitrary: d r rule: less_induct)
  case less
  show ?case
  proof (cases "length d < len")
    case False
    then have "escape_loop (d @ r) nwc esc len (length d) = d @ r"
      by (simp add: escape_loop.simps)
    then show ?thesis using escaped_refl by blast
  next
    case True
    with less.prems(2) obtain c r' where r: "r = c # r'" by (cases r) auto
    from less.prems(1) r have cz: "c \<noteq> NUL" and nr': "NUL \<notin> set r'" by auto
    let ?k = "length (takeWhile is_follower r')"
    let ?fs = "take ?k r'"
    let ?r2 = "drop ?k r'"
    have split: "?fs @ ?r2 = r'" by simp
    have kl: "?k \<le> length r'" by (rule length_takeWhile_le)
    then have lfs: "length ?fs = ?k" by simp
    have nr2: "NUL \<notin> set ?r2" using nr' by (auto dest: in_set_dropD)
    have lt: "length ?r2 < length r" using r by simp
    have ch: "sbuf_char_at (d @ r) (length d) = c"
      using r by (simp add: sbuf_char_at_def char_at_def)
    show ?thesis
    proof (cases "c \<in> set nwc")
      case sep: True
      let ?d' = "d @ esc # c # ?fs"
      have nx: "sbuf_next (sbuf_insert_char_at (d @ r) esc (length d)) (length d + 1)
                  = Some (length ?d')"
        using sbuf_next_at[of "d @ [esc]" c r'] r lfs
        by (simp add: sbuf_insert_char_at_def)
      have buf: "sbuf_insert_char_at (d @ r) esc (length d) = ?d' @ ?r2"
        using r split by (simp add: sbuf_insert_char_at_def)
      have step: "escape_loop (d @ r) nwc esc len (length d)
                    = escape_loop (?d' @ ?r2) nwc esc len (length ?d')"
        using True ch sep cz nx buf
        by (subst escape_loop.simps) (simp add: strchr_iff)
      have "len \<le> length ?d' + length ?r2" using less.prems(2) r kl by simp
      from less.hyps[OF lt nr2 this] obtain x where
        x: "escape_loop (?d' @ ?r2) nwc esc len (length ?d') = ?d' @ x" and e: "escaped nwc esc ?r2 x"
        by blast
      from e have "escaped nwc esc (?fs @ ?r2) (?fs @ x)" by (rule escaped_append_same)
      then have "escaped nwc esc r' (?fs @ x)" by (simp only: split)
      then have "escaped nwc esc r (esc # c # ?fs @ x)" using sep r by (auto intro: escaped.Ins)
      with step x show ?thesis by auto
    next
      case nosep: False
      let ?d' = "d @ c # ?fs"
      have nx: "sbuf_next (d @ r) (length d) = Some (length ?d')"
        using sbuf_next_at[of d c r'] r lfs by simp
      have buf: "d @ r = ?d' @ ?r2" using r split by simp
      have step: "escape_loop (d @ r) nwc esc len (length d)
                    = escape_loop (?d' @ ?r2) nwc esc len (length ?d')"
        using True ch nosep cz nx buf
        by (subst escape_loop.simps) (simp add: strchr_None_iff)
      have "len \<le> length ?d' + length ?r2" using less.prems(2) r kl by simp
      from less.hyps[OF lt nr2 this] obtain x where
        x: "escape_loop (?d' @ ?r2) nwc esc len (length ?d') = ?d' @ x" and e: "escaped nwc esc ?r2 x"
        by blast
      from e have "escaped nwc esc (?fs @ ?r2) (?fs @ x)" by (rule escaped_append_same)
      then have "escaped nwc esc r' (?fs @ x)" by (simp only: split)
      then have "escaped nwc esc r (c # ?fs @ x)" using r by (auto intro: escaped.Keep)
      with step x show ?thesis by auto
    qed
  qed
qed


lemma round_trip_ok_tl: "round_trip_ok nwc esc (x # w) \<Longrightarrow> round_trip_ok nwc esc w"
  by (cases w) (auto simp: round_trip_ok_def)

lemma round_trip_ok_drop: "round_trip_ok nwc esc w \<Longrightarrow> round_trip_ok nwc esc (drop n w)"
proof (induction n arbitrary: w)
  case 0
  then show ?case by simp
next
  case (Suc n)
  show ?case
  proof (cases w)
    case Nil
    then show ?thesis by (simp add: round_trip_ok_def)
  next
    case (Cons x w')
    with Suc.prems have "round_trip_ok nwc esc w'" by (auto dest: round_trip_ok_tl)
    from Suc.IH[OF this] Cons show ?thesis by simp
  qed
qed

lemma round_trip_ok_pair:
  "round_trip_ok nwc esc (a # b # cs) \<Longrightarrow> a = esc \<Longrightarrow> b \<notin> set nwc"
  by (auto simp: round_trip_ok_def)

lemma round_trip_ok_single: "round_trip_ok nwc esc [a] \<Longrightarrow> a \<noteq> esc"
  by (simp add: round_trip_ok_def)

lemma not_follower_NUL: "\<not> is_follower NUL"
  by (simp add: is_follower_def NUL_def)

lemma escaped_followers:
  "escaped nwc esc w e \<Longrightarrow> \<not> is_follower esc \<Longrightarrow> \<forall>c \<in> set nwc. \<not> is_follower c \<Longrightarrow>
     takeWhile is_follower e = takeWhile is_follower w \<and>
     escaped nwc esc (dropWhile is_follower w) (dropWhile is_follower e)"
  by (induction rule: escaped.induct) (auto intro: escaped.intros)

lemma char_at_pad:
  "set pad \<subseteq> {NUL} \<Longrightarrow> length d \<le> i \<Longrightarrow> char_at (d @ pad) i = NUL"
proof (cases "i < length (d @ pad)")
  case False
  then show ?thesis by (simp add: char_at_def)
next
  case True
  assume a: "set pad \<subseteq> {NUL}" "length d \<le> i"
  with True have "(d @ pad) ! i = pad ! (i - length d)" by (simp add: nth_append)
  moreover have "pad ! (i - length d) \<in> set pad" using True a by simp
  then have "pad ! (i - length d) = NUL" using a(1) by blast
  ultimately show ?thesis using True by (simp add: char_at_def)
qed

lemma unescape_loop_pad:
  "esc \<noteq> NUL \<Longrightarrow> set pad \<subseteq> {NUL} \<Longrightarrow> length d \<le> wpos
     \<Longrightarrow> unescape_loop (d @ pad) nwc esc wlen wpos = d @ pad"
proof (induction "wlen - wpos" arbitrary: wpos rule: less_induct)
  case less
  show ?case
  proof (cases "wpos < wlen")
    case False
    then show ?thesis by (simp add: unescape_loop.simps)
  next
    case True
    let ?ofs = "str_next_ofs (d @ pad) wlen wpos"
    have ofs: "0 < ?ofs" using True by (rule str_next_ofs_pos)
    have c: "char_at (d @ pad) wpos \<noteq> esc"
      using char_at_pad[OF less.prems(2,3)] less.prems(1) by simp
    have "unescape_loop (d @ pad) nwc esc wlen wpos
            = unescape_loop (d @ pad) nwc esc wlen (wpos + ?ofs)"
      using True ofs c by (subst unescape_loop.simps) (simp add: Let_def)
    also have "\<dots> = d @ pad"
      using less.hyps[of "wpos + ?ofs"] True ofs less.prems by simp
    finally show ?thesis .
  qed
qed

lemma c_str_pad: "NUL \<notin> set d \<Longrightarrow> pad \<noteq> [] \<Longrightarrow> set pad \<subseteq> {NUL} \<Longrightarrow> c_str (d @ pad) = d"
proof -
  assume a: "NUL \<notin> set d" "pad \<noteq> []" "set pad \<subseteq> {NUL}"
  then have "hd pad = NUL" by (cases pad) auto
  with a(2) have "takeWhile (\<lambda>c. c \<noteq> NUL) pad = []" by (cases pad) auto
  moreover have "\<forall>x \<in> set d. x \<noteq> NUL" using a(1) by auto
  ultimately show ?thesis by (simp add: c_str_def takeWhile_append2)
qed


lemma drop_last: "length xs = Suc n \<Longrightarrow> drop n xs = [last xs]"
proof -
  assume a: "length xs = Suc n"
  then have "xs \<noteq> []" by auto
  then have x: "butlast xs @ [last xs] = xs" by simp
  have "length (butlast xs) = n" using a by simp
  then have "drop n (butlast xs @ [last xs]) = [last xs]" by simp
  then show ?thesis by (simp only: x)
qed

lemma escaped_removed:
  assumes "escaped nwc esc rw (esc # y # re)" and "y \<in> set nwc" and "round_trip_ok nwc esc rw"
  shows "\<exists>rw'. rw = y # rw' \<and> escaped nwc esc rw' re"
  using assms(1)
proof (cases rule: escaped.cases)
  case (Keep w)
  from Keep(2) show ?thesis
  proof (cases rule: escaped.cases)
    case (Keep w2)
    with \<open>rw = esc # w\<close> assms(2,3) show ?thesis
      by (auto dest: round_trip_ok_pair)
  next
    case (Ins w2 e c)
    with \<open>rw = esc # w\<close> assms(3) show ?thesis
      by (auto dest: round_trip_ok_pair)
  qed
next
  case (Ins w)
  then show ?thesis by auto
qed

lemma escaped_kept:
  assumes "escaped nwc esc rw (x # re)" and "x = esc \<Longrightarrow> re \<noteq> [] \<Longrightarrow> hd re \<notin> set nwc"
  shows "\<exists>rw'. rw = x # rw' \<and> escaped nwc esc rw' re"
  using assms(1)
proof (cases rule: escaped.cases)
  case (Keep w)
  then show ?thesis by auto
next
  case (Ins w e c)
  with assms(2) show ?thesis by auto
qed

text \<open>
  The unescaping loop, started at the end of the part \<open>d\<close> that is done, with the
  escaped rest \<open>re\<close> of the word and the terminator and the bytes left behind by
  earlier moves (\<open>pad\<close>) after it, removes the inserted escape characters and no other.
\<close>

lemma unescape_loop_escaped:
  assumes "esc \<noteq> NUL" and "\<not> is_follower esc" and "\<forall>c \<in> set nwc. \<not> is_follower c"
  shows "NUL \<notin> set d \<Longrightarrow> NUL \<notin> set rw \<Longrightarrow> round_trip_ok nwc esc rw \<Longrightarrow>
     escaped nwc esc rw re \<Longrightarrow> pad \<noteq> [] \<Longrightarrow> set pad \<subseteq> {NUL} \<Longrightarrow>
     length d + length re + length pad = wlen + 1 \<Longrightarrow>
     c_str (unescape_loop (d @ re @ pad) nwc esc wlen (length d)) = d @ rw"
proof (induction "length re" arbitrary: d re pad rw rule: less_induct)
  case less
  note nd = less.prems(1) and nrw = less.prems(2) and ok = less.prems(3) and es = less.prems(4)
    and pne = less.prems(5) and pad = less.prems(6) and len = less.prems(7)
  show ?case
  proof (cases re)
    case Nil
    with es have "rw = []" by (auto elim: escaped_NilE)
    with Nil unescape_loop_pad[OF assms(1) pad le_refl, of d nwc wlen] c_str_pad[OF nd pne pad]
    show ?thesis by simp
  next
    case (Cons x re')
    let ?b = "d @ re @ pad"
    let ?k = "length (takeWhile is_follower re')"
    have lt: "length d < wlen" using len Cons pne by (cases pad) auto
    have nre: "NUL \<notin> set re" using es assms(1) nrw by (rule escaped_no_NUL)
    have hp: "hd pad = NUL" using pne pad by (cases pad) auto
    have bl: "butlast pad = [] \<or> \<not> is_follower (hd (butlast pad))"
    proof (cases "butlast pad")
      case Nil
      then show ?thesis by simp
    next
      case (Cons p ps)
      then have "p \<in> set pad" by (metis in_set_butlastD list.set_intros(1))
      with pad have "p = NUL" by blast
      with Cons show ?thesis by (simp add: not_follower_NUL)
    qed
    have tk: "take wlen ?b = d @ re @ butlast pad"
    proof -
      have wl: "wlen = length ?b - 1" using len by simp
      have "take wlen ?b = butlast ?b" unfolding wl by (rule butlast_conv_take[symmetric])
      also have "\<dots> = d @ re @ butlast pad" using pne by (simp add: butlast_append)
      finally show ?thesis .
    qed
    have ofs: "str_next_ofs ?b wlen (length d) = 1 + ?k"
      using lt tk Cons bl by (simp add: str_next_ofs_def takeWhile_append_stop)
    have cx: "char_at ?b (length d) = x" using Cons by (simp add: char_at_def nth_append)
    have cy: "char_at ?b (length d + 1) = hd (re' @ pad)"
      using Cons pne by (cases "re' @ pad") (auto simp: char_at_def nth_append)
    show ?thesis
    proof (cases "x = esc \<and> (re' = [] \<or> hd re' \<in> set nwc)")
      case True
      then have xe: "x = esc" by simp
      have "re' \<noteq> []"
      proof
        assume "re' = []"
        with es Cons xe have "rw = [esc]" by (auto elim!: escaped_ConsE escaped_NilE)
        with ok show False by (auto dest: round_trip_ok_single)
      qed
      then obtain y re2 where re': "re' = y # re2" by (cases re') auto
      with True have ys: "y \<in> set nwc" by simp
      from escaped_removed[OF _ ys ok] es Cons xe re'
      obtain rw' where rw: "rw = y # rw'" and es': "escaped nwc esc rw' re2" by auto
      have ynf: "\<not> is_follower y" using ys assms(3) by blast
      then have k0: "?k = 0" using re' by simp
      have cond: "char_at ?b (length d) = esc \<and> strchr nwc (char_at ?b (length d + 1)) \<noteq> None"
        using cx cy xe re' ys by (simp add: strchr_iff)
      have mv: "rp_memmove ?b (length d) (length d + 1) (wlen - length d)
                  = (d @ [y]) @ re2 @ (pad @ [NUL])"
      proof -
        have l: "length (re' @ pad) = wlen - length d" using len Cons by simp
        have "length ?b = Suc wlen" using len by simp
        then have "drop wlen ?b = [last ?b]" by (rule drop_last)
        moreover have "last ?b = last pad" using pne by simp
        moreover have "last pad = NUL" using pne pad last_in_set[of pad] by blast
        ultimately have dl: "drop wlen ?b = [NUL]" by simp
        have "rp_memmove ?b (length d) (length d + 1) (wlen - length d)
                = d @ take (wlen - length d) (re' @ pad) @ drop (length d + (wlen - length d)) ?b"
          using Cons by (simp add: rp_memmove_def)
        also have "take (wlen - length d) (re' @ pad) = re' @ pad" using l by simp
        also have "length d + (wlen - length d) = wlen" using lt by simp
        finally show ?thesis using dl re' by simp
      qed
      have step: "unescape_loop ?b nwc esc wlen (length d)
                    = unescape_loop ((d @ [y]) @ re2 @ (pad @ [NUL])) nwc esc wlen (length (d @ [y]))"
        using lt ofs k0 cond mv by (subst unescape_loop.simps) (simp add: Let_def)
      have "c_str (unescape_loop ((d @ [y]) @ re2 @ (pad @ [NUL])) nwc esc wlen (length (d @ [y])))
              = (d @ [y]) @ rw'"
      proof (rule less.hyps)
        show "length re2 < length re" using Cons re' by simp
        show "NUL \<notin> set (d @ [y])" using nd nre Cons re' by auto
        show "NUL \<notin> set rw'" using nrw rw by simp
        show "round_trip_ok nwc esc rw'" using ok rw by (auto dest: round_trip_ok_tl)
        show "escaped nwc esc rw' re2" by (rule es')
        show "pad @ [NUL] \<noteq> []" by simp
        show "set (pad @ [NUL]) \<subseteq> {NUL}" using pad by simp
        show "length (d @ [y]) + length re2 + length (pad @ [NUL]) = wlen + 1"
          using len Cons re' by simp
      qed
      with step rw show ?thesis by simp
    next
      case False
      have ncond: "\<not> (char_at ?b (length d) = esc \<and> strchr nwc (char_at ?b (length d + 1)) \<noteq> None)"
      proof (cases "x = esc")
        case nx: False
        with cx show ?thesis by simp
      next
        case True
        with False obtain y re2 where re': "re' = y # re2" and yn: "y \<notin> set nwc"
          by (cases re') auto
        have "y \<noteq> NUL" using nre Cons re' by auto
        with cy re' yn show ?thesis by (simp add: strchr_None_iff)
      qed
      have "\<exists>rw'. rw = x # rw' \<and> escaped nwc esc rw' re'"
        using False es Cons by (intro escaped_kept) auto
      then obtain rw1 where rw: "rw = x # rw1" and es1: "escaped nwc esc rw1 re'" by blast
      from escaped_followers[OF es1 assms(2,3)]
      have fs: "takeWhile is_follower re' = takeWhile is_follower rw1"
        and es2: "escaped nwc esc (dropWhile is_follower rw1) (dropWhile is_follower re')" by simp_all
      let ?fs = "takeWhile is_follower re'"
      let ?d' = "d @ x # ?fs"
      have td: "?fs @ dropWhile is_follower re' @ pad = re' @ pad"
        by (simp only: append_assoc[symmetric] takeWhile_dropWhile_id)
      have buf: "?d' @ dropWhile is_follower re' @ pad = ?b" using Cons td by simp
      have ld: "length ?d' = length d + (1 + ?k)" by simp
      have step: "unescape_loop ?b nwc esc wlen (length d)
                    = unescape_loop ?b nwc esc wlen (length ?d')"
        unfolding ld using lt ofs ncond by (subst unescape_loop.simps) (auto simp: Let_def)
      have "c_str (unescape_loop (?d' @ dropWhile is_follower re' @ pad) nwc esc wlen (length ?d'))
              = ?d' @ dropWhile is_follower rw1"
      proof (rule less.hyps)
        show "length (dropWhile is_follower re') < length re"
          using Cons length_dropWhile_le[of is_follower re'] by simp
        have "set ?fs \<subseteq> set rw1" unfolding fs by (auto dest: set_takeWhileD)
        then show "NUL \<notin> set ?d'" using nd nrw rw by auto
        show "NUL \<notin> set (dropWhile is_follower rw1)"
          using nrw rw by (auto dest: set_dropWhileD)
        have "dropWhile is_follower rw1 = drop (Suc (length (takeWhile is_follower rw1))) rw"
          using rw by (simp add: dropWhile_eq_drop)
        then show "round_trip_ok nwc esc (dropWhile is_follower rw1)"
          using round_trip_ok_drop[OF ok] by simp
        show "escaped nwc esc (dropWhile is_follower rw1) (dropWhile is_follower re')" by (rule es2)
        show "pad \<noteq> []" by (rule pne)
        show "set pad \<subseteq> {NUL}" by (rule pad)
        have "length ?fs + length (dropWhile is_follower re') = length re'"
          by (metis length_append takeWhile_dropWhile_id)
        then show "length ?d' + length (dropWhile is_follower re') + length pad = wlen + 1"
          using len Cons by simp
      qed
      then have "c_str (unescape_loop ?b nwc esc wlen (length ?d')) = ?d' @ dropWhile is_follower rw1"
        by (simp only: buf)
      with step have "c_str (unescape_loop ?b nwc esc wlen (length d)) = ?d' @ dropWhile is_follower rw1"
        by simp
      also have "?d' @ dropWhile is_follower rw1 = d @ x # rw1"
        unfolding fs by simp
      finally show ?thesis using rw by simp
    qed
  qed
qed


text \<open>
  The round trip holds for every word that has no escape character directly followed by
  a separator and that does not end with the escape character, when the escape character
  and the separators are bytes that start a code point (not NUL, not continuation bytes).
\<close>

lemma escape_round_trip:
  assumes "NUL \<notin> set w" and "esc \<noteq> NUL" and "\<not> is_follower esc"
    and "\<forall>c \<in> set nwc. \<not> is_follower c" and "round_trip_ok nwc esc w"
  shows "unescape_word nwc esc (escape_word nwc esc w) = w"
proof -
  from escape_loop_escaped[of w "length w" "[]" nwc esc] assms(1)
  obtain e where e: "escape_loop w nwc esc (length w) 0 = e" and es: "escaped nwc esc w e"
    by auto
  have ne: "NUL \<notin> set e" using es assms(2,1) by (rule escaped_no_NUL)
  then have ew: "escape_word nwc esc w = e"
    using e by (simp add: escape_word_def sbuf_string_def sbuf_replace_def sbuf_len_def c_str_id)
  have "c_str (unescape_loop ([] @ e @ [NUL]) nwc esc (length e) (length ([] :: string))) = [] @ w"
    using assms(2,3,4) _ assms(1,5) es
    by (rule unescape_loop_escaped) simp_all
  then show ?thesis
    by (simp add: ew unescape_word_def unescaped_word_def mem_strdup_def)
qed


text \<open>
  The escaping loop compares \<open>pos\<close> with the length the buffer had before the loop, so
  it ends before the buffer does once characters have been inserted: of the three
  separators of \<open>a b c d\<close> the third is not escaped.
\<close>

lemma escape_loop_ends_early:
  "escape_word default_non_word_chars (CHR 0x5C) ''a b c d''
     = ''a'' @ [CHR 0x5C] @ '' b'' @ [CHR 0x5C] @ '' c d''"
  by code_simp

text \<open>
  Claim C2, at a failing input. The word \<open>src\<close> followed by a backslash holds no escape
  character that is followed by a separator. Escaping leaves it as it is; unescaping reads
  the terminator after the final backslash, \<open>strchr\<close> finds the terminator of the
  separator string, and the backslash is removed: the round trip yields \<open>src\<close>.
\<close>

theorem trailing_escape_lost:
  "no_escaped_separator default_non_word_chars (CHR 0x5C) (''src'' @ [CHR 0x5C]) \<and>
   escape_word default_non_word_chars (CHR 0x5C) (''src'' @ [CHR 0x5C]) = ''src'' @ [CHR 0x5C] \<and>
   unescape_word default_non_word_chars (CHR 0x5C)
     (escape_word default_non_word_chars (CHR 0x5C) (''src'' @ [CHR 0x5C])) = ''src''"
  by code_simp

section \<open>The default root\<close>

lemma strrchr_Some_less: "c \<noteq> NUL \<Longrightarrow> strrchr s c = Some n \<Longrightarrow> n < length s"
  by (induction s arbitrary: n) (auto split: option.splits if_splits)

text \<open>
  With the single root \<open>.\<close> a relative word is completed in one directory: \<open>./\<close> followed
  by the directory portion of the word without its last slash.
\<close>

lemma filename_completer_relative:
  assumes "\<not> os_path_is_absolute word" and "root_dir_ok mem" and "dir_prefix_ok mem"
  shows "filename_completer fs mem \<lparr>roots = ''.'', dir_sep = dsep\<rparr> add cenv word w
     = snd (snd (snd (filename_complete_indir fs add
                        (''./'' @ butlast (dir_part word), dir_part word, w)
                        (base_part word) dsep)))"
proof (cases "strrchr word (CHR ''/'')")
  case None
  with assms show ?thesis
    by (simp add: filename_completer_def roots_loop.simps[of _ _ _ _ _ "''.''"]
          complete_in_root_def dir_part_def base_part_def sbuf_append_def sbuf_clear_def
          sbuf_append_char_def sbuf_append_n_def NUL_def)
next
  case (Some i)
  have "CHR ''/'' \<noteq> NUL" by (simp add: NUL_def)
  then have "i < length word" using Some by (rule strrchr_Some_less)
  then have bl: "butlast (take (Suc i) word) = take i word"
    by (simp add: butlast_take)
  from assms Some bl show ?thesis
    by (simp add: filename_completer_def roots_loop.simps[of _ _ _ _ _ "''.''"]
          complete_in_root_def dir_part_def base_part_def sbuf_append_def sbuf_clear_def
          sbuf_append_char_def sbuf_append_n_def NUL_def)
qed

lemma butlast_no_NUL: "NUL \<notin> set s \<Longrightarrow> NUL \<notin> set (butlast s)"
  by (auto dest: in_set_butlastD)

lemma dir_part_no_NUL: "NUL \<notin> set s \<Longrightarrow> NUL \<notin> set (dir_part s)"
  by (auto simp: dir_part_def dest: in_set_takeD split: option.splits)

text \<open>
  Claim C10. A null \<open>roots\<close> argument is replaced by \<open>"."\<close> before anything else is done:
  the call is the call with \<open>roots = "."\<close>. And when the word to complete is a relative
  path (and the allocations succeed), the call opens exactly one directory, \<open>./\<close>
  followed by the directory portion of the word without its last slash, and the candidates
  it proposes to a sink that accepts them all are those of the matching entries of that
  directory, in order.
\<close>

theorem null_roots_is_dot:
  "rp_complete_filename call fs mem cenv prefix dsep None w
     = rp_complete_filename call fs mem cenv prefix dsep (Some ''.'') w \<and>
   (word_boundary prefix filename_non_word_chars (CHR 0x5C) [CHR 0x27, CHR 0x22] = Inr (q, pos) \<and>
    pos \<noteq> length prefix \<and>
    word = unescaped_word prefix filename_non_word_chars (CHR 0x5C) q pos \<and>
    \<not> os_path_is_absolute word \<and>
    word_ok mem \<and> sbuf_ok mem \<and> root_dir_ok mem \<and> dir_prefix_ok mem \<longrightarrow>
    (\<exists>cenv' w'.
       rp_complete_filename call fs mem cenv prefix dsep None w = Inr (cenv', w', [word]) \<and>
       opened (trace w') = opened (trace w) @ [''./'' @ butlast (dir_part word)] \<and>
       (\<forall>names.
          dir_entries fs (''./'' @ butlast (dir_part word)) = Some names \<and>
          (\<forall>n \<in> set names. NUL \<notin> set n) \<and> (\<forall>f e p c. fst (call f e p c)) \<longrightarrow>
          proposed (trace w') = proposed (trace w) @
            map (proposed_text fs (''./'' @ butlast (dir_part word)) (dir_part word) dsep)
              (filter (is_match (base_part word)) names))))"
proof (intro conjI impI)
  show "rp_complete_filename call fs mem cenv prefix dsep None w
     = rp_complete_filename call fs mem cenv prefix dsep (Some ''.'') w"
    by (simp add: rp_complete_filename_def)
next
  assume a: "word_boundary prefix filename_non_word_chars (CHR 0x5C) [CHR 0x27, CHR 0x22] = Inr (q, pos) \<and>
    pos \<noteq> length prefix \<and>
    word = unescaped_word prefix filename_non_word_chars (CHR 0x5C) q pos \<and>
    \<not> os_path_is_absolute word \<and>
    word_ok mem \<and> sbuf_ok mem \<and> root_dir_ok mem \<and> dir_prefix_ok mem"
  then have wb: "word_boundary prefix filename_non_word_chars (CHR 0x5C) [CHR 0x27, CHR 0x22] = Inr (q, pos)"
    and ne: "pos \<noteq> length prefix"
    and wd: "word = unescaped_word prefix filename_non_word_chars (CHR 0x5C) q pos"
    and rel: "\<not> os_path_is_absolute word"
    and ok: "word_ok mem" "sbuf_ok mem" "root_dir_ok mem" "dir_prefix_ok mem"
    by blast+
  have nn: "NUL \<notin> set word" using wd by (simp add: unescaped_word_no_NUL)
  define dir where "dir = ''./'' @ butlast (dir_part word)"
  have pn: "NUL \<notin> set (dir_part word)" using nn by (rule dir_part_no_NUL)
  then have "NUL \<notin> set (butlast (dir_part word))" by (rule butlast_no_NUL)
  moreover have "NUL \<notin> set ''./''" by (simp add: NUL_def)
  ultimately have dn: "NUL \<notin> set dir" by (simp add: dir_def)
  define cenv1 where "cenv1 = cenv\<lparr>arg := Fclosure_ptr, complete := Word_add_completion_ex, closure := Wenv_ptr\<rparr>"
  define wenv where "wenv = make_wenv (cenv\<lparr>arg := Fclosure_ptr\<rparr>) filename_non_word_chars (CHR 0x5C) q (length prefix) pos"
  define sink where "sink = (\<lambda>c e. word_add_completion_ex call wenv e (closure cenv1) c)"
  define cenv2 where "cenv2 = cenv1\<lparr>complete := prev_complete wenv, closure := prev_env wenv\<rparr>"
  obtain cont d p w' where r:
    "filename_complete_indir fs sink (dir, dir_part word, w) (base_part word) dsep = (cont, d, p, w')"
    by (cases "filename_complete_indir fs sink (dir, dir_part word, w) (base_part word) dsep") auto
  have run: "rp_complete_filename call fs mem cenv prefix dsep None w = Inr (cenv2, w', [word])"
    using wb ne ok(1,2) filename_completer_relative[OF rel ok(3,4), of fs dsep sink cenv1 w] r
    by (simp add: rp_complete_filename_def rp_complete_quoted_word_def Let_def wd
          cenv1_def wenv_def sink_def cenv2_def dir_def)
  have op: "opened (trace w') = opened (trace w) @ [dir]"
    using filename_complete_indir_opened[OF r] dn by (simp add: sbuf_string_def c_str_id)
  have pr: "proposed (trace w') = proposed (trace w) @
            map (proposed_text fs dir (dir_part word) dsep) (filter (is_match (base_part word)) names)"
    if h: "dir_entries fs dir = Some names \<and> (\<forall>n \<in> set names. NUL \<notin> set n) \<and>
           (\<forall>f e p c. fst (call f e p c))" for names
  proof -
    from h have acc: "\<forall>c e. fst (sink c e)"
      by (simp add: sink_def word_add_completion_ex_def Let_def)
    from h have h3: "\<forall>n \<in> set names. NUL \<notin> set n" and h4: "dir_entries fs dir = Some names"
      by simp_all
    from indir_proposals[OF dn pn h3 h4, of sink dsep "base_part word" w] r acc
    show ?thesis by auto
  qed
  from run op pr
  show "\<exists>cenv' w'.
       rp_complete_filename call fs mem cenv prefix dsep None w = Inr (cenv', w', [word]) \<and>
       opened (trace w') = opened (trace w) @ [''./'' @ butlast (dir_part word)] \<and>
       (\<forall>names.
          dir_entries fs (''./'' @ butlast (dir_part word)) = Some names \<and>
          (\<forall>n \<in> set names. NUL \<notin> set n) \<and> (\<forall>f e p c. fst (call f e p c)) \<longrightarrow>
          proposed (trace w') = proposed (trace w) @
            map (proposed_text fs (''./'' @ butlast (dir_part word)) (dir_part word) dsep)
              (filter (is_match (base_part word)) names))"
    unfolding dir_def by blast
qed

text \<open>
  A call with null \<open>roots\<close>: for the prefix \<open>ls sr\<close> the word is \<open>sr\<close>, the directory
  \<open>./\<close> is opened and no other, and the candidate \<open>src/\<close> is proposed.
\<close>

theorem null_roots_is_dot_witness:
  "word_boundary ''ls sr'' filename_non_word_chars (CHR 0x5C) [CHR 0x27, CHR 0x22] = Inr (NUL, 3) \<and>
   unescaped_word ''ls sr'' filename_non_word_chars (CHR 0x5C) NUL 3 = ''sr'' \<and>
   \<not> os_path_is_absolute ''sr'' \<and>
   opened (trace_of (rp_complete_filename (recording_sink True) example_fs all_ok top_cenv
                       ''ls sr'' (CHR ''/'') None empty_world)) = [''./''] \<and>
   proposed (trace_of (rp_complete_filename (recording_sink True) example_fs all_ok top_cenv
                         ''ls sr'' (CHR ''/'') None empty_world)) = [''src/'']"
proof -
  let ?names = "[''.'', ''..'', ''src'', ''test'', ''README.md'']"
  have h1: "word_boundary ''ls sr'' filename_non_word_chars (CHR 0x5C) [CHR 0x27, CHR 0x22] = Inr (NUL, 3)"
    by code_simp
  have h2: "3 \<noteq> length ''ls sr''" by simp
  have h3: "''sr'' = unescaped_word ''ls sr'' filename_non_word_chars (CHR 0x5C) NUL 3"
    by code_simp
  have h4: "\<not> os_path_is_absolute ''sr''" by code_simp
  have m: "word_ok all_ok" "sbuf_ok all_ok" "root_dir_ok all_ok" "dir_prefix_ok all_ok"
    by (simp_all add: all_ok_def)
  have d: "''./'' @ butlast (dir_part ''sr'') = ''./''" "dir_part ''sr'' = []" "base_part ''sr'' = ''sr''"
    by code_simp+
  have e: "dir_entries example_fs ''./'' = Some ?names" by (simp add: example_fs_def)
  have n: "\<forall>n \<in> set ?names. NUL \<notin> set n" by (simp add: NUL_def)
  have s: "\<forall>f e p c. fst (recording_sink True f e p c)" by (simp add: recording_sink_def)
  have t: "map (proposed_text example_fs ''./'' [] (CHR ''/'')) (filter (is_match ''sr'') ?names) = [''src/'']"
    by code_simp
  from null_roots_is_dot[of "recording_sink True" example_fs all_ok top_cenv "''ls sr''" "CHR ''/''"
      empty_world NUL 3 "''sr''"] h1 h2 h3 h4 m
  obtain cenv' w' where
    r: "rp_complete_filename (recording_sink True) example_fs all_ok top_cenv ''ls sr''
          (CHR ''/'') None empty_world = Inr (cenv', w', [''sr''])"
    and o: "opened (trace w') = opened (trace empty_world) @ [''./'' @ butlast (dir_part ''sr'')]"
    and p: "\<forall>names.
          dir_entries example_fs (''./'' @ butlast (dir_part ''sr'')) = Some names \<and>
          (\<forall>n \<in> set names. NUL \<notin> set n) \<and> (\<forall>f e p c. fst (recording_sink True f e p c)) \<longrightarrow>
          proposed (trace w') = proposed (trace empty_world) @
            map (proposed_text example_fs (''./'' @ butlast (dir_part ''sr'')) (dir_part ''sr'') (CHR ''/''))
              (filter (is_match (base_part ''sr'')) names)"
    by blast
  from o d have o': "opened (trace w') = [''./'']" by (simp add: empty_world_def)
  from p[rule_format, of ?names] d e n s t
  have p': "proposed (trace w') = [''src/'']" by (simp add: empty_world_def)
  from r o' p' h1 h3 h4 show ?thesis by (simp add: trace_of_def)
qed

end
